theory Spec2Isabelle
  imports Main "HOL-Library.Word"
begin

section \<open>SafeLibev: thread-safe use of a libev event loop\<close>

text \<open>
  A shallow embedding of \<^verbatim>\<open>ext/common/SafeLibev.h\<close>. The object's fields are a
  record; every member function is a function from the object's state to its new state.

  \<^item> \<^verbatim>\<open>unsigned int\<close> is a 32-bit word, the bit-field \<^verbatim>\<open>id: 31\<close> a 31-bit word; storing
    a 32-bit number in the bit-field truncates it, comparing the two zero-extends the
    bit-field.
  \<^item> A \<^verbatim>\<open>boost::function<void ()>\<close> is a \<open>Callback\<close>: empty (\<open>Null\<close>), a closure of the
    caller (\<open>User a\<close>), or one of the four \<^verbatim>\<open>boost::bind\<close> closures the class builds
    itself. A closure of the caller is opaque: calling it is recorded in \<open>called\<close>; it is
    taken to return normally and not to call back into this object.
  \<^item> \<^verbatim>\<open>assert\<close> is taken as enabled. A failed assertion is \<open>Inl (AssertionFailed, s)\<close>,
    calling an empty \<^verbatim>\<open>boost::function\<close> (it throws) is \<open>Inl (BadFunctionCall, s)\<close>, where
    \<open>s\<close> is the state at that moment; nothing runs after either.
  \<^item> libev is a black box: the calls made into it are appended to \<open>ev_calls\<close>.
  \<^item> The mutex \<^verbatim>\<open>syncher\<close> is not modelled: a function of the model is one thread's
    uninterrupted run of the member function. A member function that ends in
    \<^verbatim>\<open>while (!done) cond.wait(l)\<close> returns \<open>Waiting d\<close>, \<open>d\<close> being the address of the
    caller's local \<^verbatim>\<open>done\<close>; the flag itself lives in \<open>done_flags\<close>.
\<close>

subsection \<open>Data\<close>

type_synonym uint = "32 word"
type_synonym pthread_t = nat
type_synonym addr = nat
type_synonym watcher = nat

datatype 'a Callback =
    Null
  | User 'a
  | BindRunAfter uint "'a Callback"
  | BindRunAndNotify "'a Callback" addr
  | BindStartWatcherAndNotify watcher addr
  | BindStopWatcherAndNotify watcher addr

record 'a Command =
  callback :: "'a Callback"
  id_cmd :: "31 word"
  canceled :: bool

datatype 'a ev_call =
    Ev_async_start
  | Ev_async_send
  | Ev_once uint "'a Callback"
  | Watcher_set watcher
  | Watcher_start watcher
  | Watcher_stop watcher

datatype error = AssertionFailed | BadFunctionCall

datatype wait = Returned | Waiting addr

text \<open>
  The calling thread: \<^verbatim>\<open>pthread_self()\<close> and its thread-local \<^verbatim>\<open>oxt::thread_signature\<close>
  (\<open>None\<close> when it is \<^verbatim>\<open>NULL\<close>, or when thread-local storage is not supported).
\<close>

record caller =
  self :: pthread_t
  thread_signature :: "addr option"

text \<open>
  The object. \<open>this_ptr\<close> is its address. The last four fields are not members of the
  class: the \<^verbatim>\<open>done\<close> flags of the waiting callers, the calls made into libev, the
  commands \<^verbatim>\<open>runCommands\<close> has called, and the closures of the caller that have run.
\<close>

record 'a SafeLibev =
  this_ptr :: addr
  loopThread :: pthread_t
  commands :: "'a Command list"
  nextCommandId :: uint
  done_flags :: "addr \<Rightarrow> bool"
  ev_calls :: "'a ev_call list"
  executed :: "'a Command list"
  called :: "'a list"

definition MAX_COMMAND_ID :: uint where
  "MAX_COMMAND_ID = 268435455"

text \<open>The constructor of \<^verbatim>\<open>Command\<close>: the id is stored in 31 bits.\<close>

definition new_Command :: "uint \<Rightarrow> 'a Callback \<Rightarrow> 'a Command" where
  "new_Command i cb = \<lparr>callback = cb, id_cmd = ucast i, canceled = False\<rparr>"

subsection \<open>Private member functions\<close>

definition push_back :: "'a Command \<Rightarrow> 'a SafeLibev \<Rightarrow> 'a SafeLibev" where
  "push_back c s = s\<lparr>commands := commands s @ [c]\<rparr>"

definition ev_async_send :: "'a SafeLibev \<Rightarrow> 'a SafeLibev" where
  "ev_async_send s = s\<lparr>ev_calls := ev_calls s @ [Ev_async_send]\<rparr>"

definition set_done :: "addr \<Rightarrow> bool \<Rightarrow> 'a SafeLibev \<Rightarrow> 'a SafeLibev" where
  "set_done d b s = s\<lparr>done_flags := (done_flags s)(d := b)\<rparr>"

text \<open>\<^verbatim>\<open>while (!done) cond.wait(l)\<close>, each time the waiting thread looks at its flag.\<close>

definition wait_done :: "addr \<Rightarrow> 'a SafeLibev \<Rightarrow> wait" where
  "wait_done d s = (if done_flags s d then Returned else Waiting d)"

definition startWatcherAndNotify :: "watcher \<Rightarrow> addr \<Rightarrow> 'a SafeLibev \<Rightarrow> 'a SafeLibev" where
  "startWatcherAndNotify w d s =
     set_done d True (s\<lparr>ev_calls := ev_calls s @ [Watcher_set w, Watcher_start w]\<rparr>)"

definition stopWatcherAndNotify :: "watcher \<Rightarrow> addr \<Rightarrow> 'a SafeLibev \<Rightarrow> 'a SafeLibev" where
  "stopWatcherAndNotify w d s =
     set_done d True (s\<lparr>ev_calls := ev_calls s @ [Watcher_stop w]\<rparr>)"

text \<open>
  \<^verbatim>\<open>runAfter\<close> is public, and it is what \<open>BindRunAfter\<close> calls. The timeout is passed to
  \<^verbatim>\<open>ev_once\<close> in seconds, as a double; the model keeps the milliseconds.
\<close>

definition runAfter :: "uint \<Rightarrow> 'a Callback \<Rightarrow> 'a SafeLibev \<Rightarrow> error \<times> 'a SafeLibev + 'a SafeLibev" where
  "runAfter timeout cb s =
     (if cb = Null then Inl (AssertionFailed, s)
      else Inr (s\<lparr>ev_calls := ev_calls s @ [Ev_once timeout cb]\<rparr>))"

text \<open>
  \<open>invoke cb\<close> is the call \<^verbatim>\<open>cb()\<close>. \<^verbatim>\<open>runAndNotify\<close> calls the callback it was given and
  then sets the flag.
\<close>

fun invoke :: "'a Callback \<Rightarrow> 'a SafeLibev \<Rightarrow> error \<times> 'a SafeLibev + 'a SafeLibev"
  and runAndNotify :: "'a Callback \<Rightarrow> addr \<Rightarrow> 'a SafeLibev \<Rightarrow> error \<times> 'a SafeLibev + 'a SafeLibev" where
  "invoke Null s = Inl (BadFunctionCall, s)"
| "invoke (User a) s = Inr (s\<lparr>called := called s @ [a]\<rparr>)"
| "invoke (BindRunAfter timeout cb) s = runAfter timeout cb s"
| "invoke (BindRunAndNotify cb d) s = runAndNotify cb d s"
| "invoke (BindStartWatcherAndNotify w d) s = Inr (startWatcherAndNotify w d s)"
| "invoke (BindStopWatcherAndNotify w d) s = Inr (stopWatcherAndNotify w d s)"
| "runAndNotify cb d s =
     (case invoke cb s of
        Inl e \<Rightarrow> Inl e
      | Inr s' \<Rightarrow> Inr (set_done d True s'))"

definition timeoutHandler :: "'a Callback \<Rightarrow> 'a SafeLibev \<Rightarrow> error \<times> 'a SafeLibev + 'a SafeLibev" where
  "timeoutHandler cb s = invoke cb s"

text \<open>
  \<^verbatim>\<open>runCommands\<close>: under the lock, copy the vector and clear it; then, without the lock,
  walk the copy and call every command that is not canceled.
\<close>

fun runCommands_loop :: "'a Command list \<Rightarrow> 'a SafeLibev \<Rightarrow> error \<times> 'a SafeLibev + 'a SafeLibev" where
  "runCommands_loop [] s = Inr s"
| "runCommands_loop (c # cs) s =
     (if \<not> canceled c then
        (case invoke (callback c) (s\<lparr>executed := executed s @ [c]\<rparr>) of
           Inl e \<Rightarrow> Inl e
         | Inr s' \<Rightarrow> runCommands_loop cs s')
      else runCommands_loop cs s)"

definition runCommands :: "'a SafeLibev \<Rightarrow> error \<times> 'a SafeLibev + 'a SafeLibev" where
  "runCommands s =
     (let commands' = commands s;
          s' = s\<lparr>commands := []\<rparr>
      in runCommands_loop commands' s')"

definition asyncHandler :: "'a SafeLibev \<Rightarrow> error \<times> 'a SafeLibev + 'a SafeLibev" where
  "asyncHandler s = runCommands s"

definition incNextCommandId :: "'a SafeLibev \<Rightarrow> 'a SafeLibev" where
  "incNextCommandId s =
     (if nextCommandId s = MAX_COMMAND_ID then s\<lparr>nextCommandId := 1\<rparr>
      else s\<lparr>nextCommandId := nextCommandId s + 1\<rparr>)"

subsection \<open>Public member functions\<close>

text \<open>The constructor, run by thread \<open>t\<close> for the object at address \<open>p\<close>.\<close>

definition SafeLibev_new :: "addr \<Rightarrow> pthread_t \<Rightarrow> 'a SafeLibev" where
  "SafeLibev_new p t =
     \<lparr>this_ptr = p, loopThread = t, commands = [], nextCommandId = 1,
      done_flags = (\<lambda>d. False), ev_calls = [Ev_async_start], executed = [], called = []\<rparr>"

text \<open>
  \<^verbatim>\<open>setCurrentThread\<close> sets \<^verbatim>\<open>loopThread\<close>; in a build with
  \<^verbatim>\<open>OXT_THREAD_LOCAL_KEYWORD_SUPPORTED\<close> (the first argument) it also writes the thread-local
  signature of the calling thread, so the model returns the caller as well. In a build
  without it the signature is never written and stays \<open>None\<close>.
  \<^verbatim>\<open>onEventLoopThread\<close> reads the signature, and compares the thread ids when it is \<^verbatim>\<open>NULL\<close>.
\<close>

definition setCurrentThread :: "bool \<Rightarrow> caller \<Rightarrow> 'a SafeLibev \<Rightarrow> caller \<times> 'a SafeLibev" where
  "setCurrentThread thread_local_supported c s =
     (if thread_local_supported then c\<lparr>thread_signature := Some (this_ptr s)\<rparr> else c,
      s\<lparr>loopThread := self c\<rparr>)"

definition onEventLoopThread :: "caller \<Rightarrow> 'a SafeLibev \<Rightarrow> bool" where
  "onEventLoopThread c s =
     (case thread_signature c of
        None \<Rightarrow> self c = loopThread s
      | Some sig \<Rightarrow> sig = this_ptr s)"

definition start :: "caller \<Rightarrow> watcher \<Rightarrow> addr \<Rightarrow> 'a SafeLibev \<Rightarrow> 'a SafeLibev \<times> wait" where
  "start c w d s =
     (if onEventLoopThread c s then
        (s\<lparr>ev_calls := ev_calls s @ [Watcher_set w, Watcher_start w]\<rparr>, Returned)
      else
        (let s1 = set_done d False s;
             s2 = push_back (new_Command (nextCommandId s1) (BindStartWatcherAndNotify w d)) s1;
             s3 = incNextCommandId s2;
             s4 = ev_async_send s3
         in (s4, wait_done d s4)))"

definition stop :: "caller \<Rightarrow> watcher \<Rightarrow> addr \<Rightarrow> 'a SafeLibev \<Rightarrow> 'a SafeLibev \<times> wait" where
  "stop c w d s =
     (if onEventLoopThread c s then
        (s\<lparr>ev_calls := ev_calls s @ [Watcher_stop w]\<rparr>, Returned)
      else
        (let s1 = set_done d False s;
             s2 = push_back (new_Command (nextCommandId s1) (BindStopWatcherAndNotify w d)) s1;
             s3 = incNextCommandId s2;
             s4 = ev_async_send s3
         in (s4, wait_done d s4)))"

definition runSync :: "'a Callback \<Rightarrow> addr \<Rightarrow> 'a SafeLibev \<Rightarrow> error \<times> 'a SafeLibev + 'a SafeLibev \<times> wait" where
  "runSync cb d s =
     (if cb = Null then Inl (AssertionFailed, s)
      else
        (let s1 = set_done d False s;
             s2 = push_back (new_Command (nextCommandId s1) (BindRunAndNotify cb d)) s1;
             s3 = incNextCommandId s2;
             s4 = ev_async_send s3
         in Inr (s4, wait_done d s4)))"

definition run :: "caller \<Rightarrow> 'a Callback \<Rightarrow> addr \<Rightarrow> 'a SafeLibev \<Rightarrow> error \<times> 'a SafeLibev + 'a SafeLibev \<times> wait" where
  "run c cb d s =
     (if cb = Null then Inl (AssertionFailed, s)
      else if onEventLoopThread c s then
        (case invoke cb s of
           Inl e \<Rightarrow> Inl e
         | Inr s' \<Rightarrow> Inr (s', Returned))
      else runSync cb d s)"

definition runLater :: "'a Callback \<Rightarrow> 'a SafeLibev \<Rightarrow> error \<times> 'a SafeLibev + 'a SafeLibev \<times> uint" where
  "runLater cb s =
     (if cb = Null then Inl (AssertionFailed, s)
      else
        (let s1 = push_back (new_Command (nextCommandId s) cb) s;
             result = nextCommandId s1;
             s2 = incNextCommandId s1;
             s3 = ev_async_send s2
         in Inr (s3, result)))"

definition runAfterTS :: "caller \<Rightarrow> uint \<Rightarrow> 'a Callback \<Rightarrow> 'a SafeLibev \<Rightarrow> error \<times> 'a SafeLibev + 'a SafeLibev" where
  "runAfterTS c timeout cb s =
     (if cb = Null then Inl (AssertionFailed, s)
      else if onEventLoopThread c s then runAfter timeout cb s
      else
        (case runLater (BindRunAfter timeout cb) s of
           Inl e \<Rightarrow> Inl e
         | Inr (s', i) \<Rightarrow> Inr s'))"

text \<open>
  \<^verbatim>\<open>cancelCommand\<close>: the loop marks the first command whose id is the one asked for and
  returns at once.
\<close>

fun cancelCommand_loop :: "uint \<Rightarrow> 'a Command list \<Rightarrow> bool \<times> 'a Command list" where
  "cancelCommand_loop i [] = (False, [])"
| "cancelCommand_loop i (c # cs) =
     (if ucast (id_cmd c) = i then (True, c\<lparr>canceled := True\<rparr> # cs)
      else (case cancelCommand_loop i cs of (r, cs') \<Rightarrow> (r, c # cs')))"

definition cancelCommand :: "uint \<Rightarrow> 'a SafeLibev \<Rightarrow> bool \<times> 'a SafeLibev" where
  "cancelCommand i s =
     (if i = 0 then (False, s)
      else (case cancelCommand_loop i (commands s) of (r, cs') \<Rightarrow> (r, s\<lparr>commands := cs'\<rparr>)))"

subsection \<open>Runs of the object\<close>

text \<open>
  The state a call ends in, whether it returned or failed; and the state alone, where the
  value a call returns is not needed.
\<close>

fun final :: "error \<times> 'a SafeLibev + 'a SafeLibev \<Rightarrow> 'a SafeLibev" where
  "final (Inl (e, s)) = s"
| "final (Inr s) = s"

fun state_of :: "error \<times> 'a SafeLibev + 'a SafeLibev \<times> 'r \<Rightarrow> error \<times> 'a SafeLibev + 'a SafeLibev" where
  "state_of (Inl e) = Inl e"
| "state_of (Inr (s, r)) = Inr s"

text \<open>
  \<open>returns_normally cb\<close>: the call \<^verbatim>\<open>cb()\<close> neither throws nor fails an assertion (lemma
  \<open>invoke_returns_normally\<close> below).
\<close>

fun returns_normally :: "'a Callback \<Rightarrow> bool" where
  "returns_normally Null = False"
| "returns_normally (User a) = True"
| "returns_normally (BindRunAfter timeout cb) = (cb \<noteq> Null)"
| "returns_normally (BindRunAndNotify cb d) = returns_normally cb"
| "returns_normally (BindStartWatcherAndNotify w d) = True"
| "returns_normally (BindStopWatcherAndNotify w d) = True"

text \<open>
  What can happen to the object between its construction and its destruction: a thread
  calls a public member function, or libev calls one of the two handlers on the loop's
  thread. A run is a list of such calls, in the order in which they take the lock; it
  ends where a call fails.
\<close>

datatype 'a api_call =
    Call_setCurrentThread bool caller
  | Call_start caller watcher addr
  | Call_stop caller watcher addr
  | Call_run caller "'a Callback" addr
  | Call_runSync "'a Callback" addr
  | Call_runAfter uint "'a Callback"
  | Call_runAfterTS caller uint "'a Callback"
  | Call_runLater "'a Callback"
  | Call_cancelCommand uint
  | Call_asyncHandler
  | Call_timeoutHandler "'a Callback"

fun step :: "'a api_call \<Rightarrow> 'a SafeLibev \<Rightarrow> error \<times> 'a SafeLibev + 'a SafeLibev" where
  "step (Call_setCurrentThread tls c) s = Inr (snd (setCurrentThread tls c s))"
| "step (Call_start c w d) s = Inr (fst (start c w d s))"
| "step (Call_stop c w d) s = Inr (fst (stop c w d s))"
| "step (Call_run c cb d) s = state_of (run c cb d s)"
| "step (Call_runSync cb d) s = state_of (runSync cb d s)"
| "step (Call_runAfter timeout cb) s = runAfter timeout cb s"
| "step (Call_runAfterTS c timeout cb) s = runAfterTS c timeout cb s"
| "step (Call_runLater cb) s = state_of (runLater cb s)"
| "step (Call_cancelCommand i) s = Inr (snd (cancelCommand i s))"
| "step Call_asyncHandler s = asyncHandler s"
| "step (Call_timeoutHandler cb) s = timeoutHandler cb s"

fun steps :: "'a api_call list \<Rightarrow> 'a SafeLibev \<Rightarrow> error \<times> 'a SafeLibev + 'a SafeLibev" where
  "steps [] s = Inr s"
| "steps (a # as) s =
     (case step a s of
        Inl e \<Rightarrow> Inl e
      | Inr s' \<Rightarrow> steps as s')"

subsection \<open>Notions the properties are stated with\<close>

text \<open>What \<^verbatim>\<open>cb()\<close> leaves alone: the vector of commands, the counter, and the list of
  the commands \<^verbatim>\<open>runCommands\<close> has called.\<close>

definition same_queue :: "'a SafeLibev \<Rightarrow> 'a SafeLibev \<Rightarrow> bool" where
  "same_queue s s' \<longleftrightarrow>
     commands s' = commands s \<and> nextCommandId s' = nextCommandId s \<and> executed s' = executed s"

text \<open>
  The closures of the caller that the call \<^verbatim>\<open>cb()\<close> runs, in order: the closure itself;
  for the closure \<^verbatim>\<open>runSync\<close> builds, what the callback given to \<^verbatim>\<open>runSync\<close> runs; none
  for the others (\<^verbatim>\<open>runAfter\<close> hands its callback to the timer and does not call it).
\<close>

fun user_calls :: "'a Callback \<Rightarrow> 'a list" where
  "user_calls Null = []"
| "user_calls (User a) = [a]"
| "user_calls (BindRunAfter timeout cb) = []"
| "user_calls (BindRunAndNotify cb d) = user_calls cb"
| "user_calls (BindStartWatcherAndNotify w d) = []"
| "user_calls (BindStopWatcherAndNotify w d) = []"

text \<open>
  Calling the next command of a list: nothing when an earlier call has failed, otherwise
  the call of its callback (noted in \<open>executed\<close>). It asks nothing about \<open>canceled\<close>.
\<close>

definition call_in_turn ::
  "'a Command \<Rightarrow> error \<times> 'a SafeLibev + 'a SafeLibev \<Rightarrow> error \<times> 'a SafeLibev + 'a SafeLibev" where
  "call_in_turn c r =
     (case r of
        Inl e \<Rightarrow> Inl e
      | Inr s \<Rightarrow> invoke (callback c) (s\<lparr>executed := executed s @ [c]\<rparr>))"

text \<open>The vector holds a command with id \<open>i\<close>; it holds one that is not canceled.\<close>

definition has_command :: "uint \<Rightarrow> 'a SafeLibev \<Rightarrow> bool" where
  "has_command i s = list_ex (\<lambda>c. ucast (id_cmd c) = i) (commands s)"

definition has_live_command :: "uint \<Rightarrow> 'a SafeLibev \<Rightarrow> bool" where
  "has_live_command i s = list_ex (\<lambda>c. ucast (id_cmd c) = i \<and> \<not> canceled c) (commands s)"

text \<open>\<open>k\<close> is the position of the first command with id \<open>i\<close>.\<close>

definition first_with_id :: "uint \<Rightarrow> 'a Command list \<Rightarrow> nat \<Rightarrow> bool" where
  "first_with_id i cs k \<longleftrightarrow>
     k < length cs \<and> ucast (id_cmd (cs ! k)) = i \<and> (\<forall>j<k. ucast (id_cmd (cs ! j)) \<noteq> i)"

text \<open>A list without its entry at position \<open>k\<close>.\<close>

definition without_nth :: "nat \<Rightarrow> 'b list \<Rightarrow> 'b list" where
  "without_nth k xs = take k xs @ drop (Suc k) xs"

text \<open>
  The counter is between 1 and \<open>MAX_COMMAND_ID\<close>, and no command in the vector has the
  id 0.
\<close>

definition ids_in_range :: "'a SafeLibev \<Rightarrow> bool" where
  "ids_in_range s \<longleftrightarrow>
     1 \<le> nextCommandId s \<and> nextCommandId s \<le> MAX_COMMAND_ID \<and>
     list_all (\<lambda>c. id_cmd c \<noteq> 0) (commands s)"

text \<open>
  From \<open>s\<close> to \<open>s'\<close> no command was called by \<^verbatim>\<open>runCommands\<close>, none was removed from the
  vector or moved in it, and the only change made to one is setting its \<open>canceled\<close>.
\<close>

definition only_appends_and_cancels :: "'a SafeLibev \<Rightarrow> 'a SafeLibev \<Rightarrow> bool" where
  "only_appends_and_cancels s s' \<longleftrightarrow>
     executed s' = executed s \<and> length (commands s) \<le> length (commands s') \<and>
     (\<forall>k<length (commands s).
        commands s' ! k = commands s ! k \<or>
        commands s' ! k = (commands s ! k)\<lparr>canceled := True\<rparr>)"

subsection \<open>Example states\<close>

text \<open>Three submissions, the second of them canceled; and one submission, canceled.\<close>

definition example_queue :: "nat SafeLibev" where
  "example_queue =
     final (steps [Call_runLater (User 10), Call_runLater (User 20), Call_runLater (User 30),
                   Call_cancelCommand 2] (SafeLibev_new 0 0))"

definition canceled_once :: "nat SafeLibev" where
  "canceled_once =
     final (steps [Call_runLater (User 10), Call_cancelCommand 1] (SafeLibev_new 0 0))"

text \<open>The three submissions again, the third canceled as well, and then a fourth.\<close>

definition canceled_then_submitted :: "nat SafeLibev" where
  "canceled_then_submitted =
     final (steps [Call_runLater (User 40)] (snd (cancelCommand 3 example_queue)))"

text \<open>An object with an empty queue whose counter has reached the maximum.\<close>

definition wrapping_state :: "nat SafeLibev" where
  "wrapping_state = (SafeLibev_new 0 0)\<lparr>nextCommandId := MAX_COMMAND_ID\<rparr>"

text \<open>The thread that built the example objects, and another one.\<close>

definition loop_caller :: caller where
  "loop_caller = \<lparr>self = 0, thread_signature = None\<rparr>"

definition other_caller :: caller where
  "other_caller = \<lparr>self = 1, thread_signature = None\<rparr>"

section \<open>Properties\<close>

subsection \<open>Calling a callback\<close>

text \<open>
  A call \<^verbatim>\<open>cb()\<close> leaves the vector of commands and the counter alone, whether it returns
  or fails; and it returns exactly when \<open>returns_normally cb\<close>.
\<close>

lemma invoke_Inr_frame: "invoke cb s = Inr s' \<Longrightarrow> same_queue s s'"
  by (induction cb arbitrary: s s')
     (auto simp: same_queue_def runAfter_def startWatcherAndNotify_def stopWatcherAndNotify_def set_done_def
           split: sum.splits if_splits)

lemma invoke_Inl_frame: "invoke cb s = Inl (e, s') \<Longrightarrow> same_queue s s'"
  by (induction cb arbitrary: s s')
     (auto simp: same_queue_def runAfter_def startWatcherAndNotify_def stopWatcherAndNotify_def set_done_def
           split: sum.splits if_splits)

lemma invoke_frame: "same_queue s (final (invoke cb s))"
  by (cases "invoke cb s") (auto dest: invoke_Inr_frame invoke_Inl_frame)

lemma returns_normally_invoke: "returns_normally cb \<Longrightarrow> \<exists>s'. invoke cb s = Inr s'"
proof (induction cb arbitrary: s)
  case (BindRunAndNotify cb d)
  then obtain s' where "invoke cb s = Inr s'" by auto
  then show ?case by simp
qed (simp_all add: runAfter_def)

lemma invoke_Inr_returns_normally: "invoke cb s = Inr s' \<Longrightarrow> returns_normally cb"
  by (induction cb arbitrary: s s') (auto simp: runAfter_def split: sum.splits if_splits)

lemma invoke_called: "called (final (invoke cb s)) = called s @ user_calls cb"
proof (induction cb arbitrary: s)
  case (BindRunAndNotify cb d)
  show ?case
    using BindRunAndNotify [of s]
    by (cases "invoke cb s") (auto simp: set_done_def)
qed (simp_all add: runAfter_def startWatcherAndNotify_def stopWatcherAndNotify_def set_done_def)

lemma invoke_returns_normally:
  "returns_normally cb \<longleftrightarrow> (\<exists>s'. invoke cb s = Inr s')"
  using returns_normally_invoke invoke_Inr_returns_normally by blast

subsection \<open>The loop of \<^verbatim>\<open>runCommands\<close>\<close>

text \<open>
  The loop does not touch the object's vector. What it calls is a prefix of the commands
  of its copy that are not canceled, in the copy's order: the whole of them when every
  call returns. It is the calls of those commands one after the other, so a canceled
  command in the copy changes nothing; and the closures of the caller that run are those
  of the commands called.
\<close>

lemma runCommands_loop_frame:
  "commands (final (runCommands_loop cs s)) = commands s \<and>
   nextCommandId (final (runCommands_loop cs s)) = nextCommandId s"
proof (induction cs arbitrary: s)
  case Nil
  show ?case by simp
next
  case (Cons c cs)
  show ?case
  proof (cases "canceled c")
    case True
    then show ?thesis using Cons.IH by simp
  next
    case False
    let ?s = "s\<lparr>executed := executed s @ [c]\<rparr>"
    show ?thesis
    proof (cases "invoke (callback c) ?s")
      case (Inl e)
      then show ?thesis
        using False invoke_Inl_frame [of "callback c" ?s "fst e" "snd e"]
        by (cases e) (simp add: same_queue_def)
    next
      case (Inr s')
      then show ?thesis
        using False invoke_Inr_frame [OF Inr] Cons.IH [of s']
        by (simp add: same_queue_def)
    qed
  qed
qed

lemma runCommands_loop_executed:
  "\<exists>n. executed (final (runCommands_loop cs s)) =
        executed s @ take n (filter (\<lambda>c. \<not> canceled c) cs)"
proof (induction cs arbitrary: s)
  case Nil
  show ?case by simp
next
  case (Cons c cs)
  show ?case
  proof (cases "canceled c")
    case True
    then show ?thesis using Cons.IH by simp
  next
    case False
    let ?s = "s\<lparr>executed := executed s @ [c]\<rparr>"
    show ?thesis
    proof (cases "invoke (callback c) ?s")
      case (Inl e)
      then have "executed (final (runCommands_loop (c # cs) s)) = executed s @ [c]"
        using False invoke_Inl_frame [of "callback c" ?s "fst e" "snd e"]
        by (cases e) (simp add: same_queue_def)
      then have "executed (final (runCommands_loop (c # cs) s)) =
                 executed s @ take 1 (filter (\<lambda>c. \<not> canceled c) (c # cs))"
        using False by simp
      then show ?thesis by blast
    next
      case (Inr s')
      obtain n where "executed (final (runCommands_loop cs s')) =
                      executed s' @ take n (filter (\<lambda>c. \<not> canceled c) cs)"
        using Cons.IH [of s'] by blast
      then have "executed (final (runCommands_loop (c # cs) s)) =
                 executed s @ take (Suc n) (filter (\<lambda>c. \<not> canceled c) (c # cs))"
        using False Inr invoke_Inr_frame [OF Inr] by (simp add: same_queue_def)
      then show ?thesis by blast
    qed
  qed
qed

lemma call_in_turn_simps:
  "call_in_turn c (Inl e) = Inl e"
  "call_in_turn c (Inr s) = invoke (callback c) (s\<lparr>executed := executed s @ [c]\<rparr>)"
  by (simp_all add: call_in_turn_def)

lemma fold_call_in_turn_Inl: "fold call_in_turn cs (Inl e) = Inl e"
  by (induction cs) (simp_all add: call_in_turn_simps)

lemma runCommands_loop_fold:
  "runCommands_loop cs s = fold call_in_turn (filter (\<lambda>c. \<not> canceled c) cs) (Inr s)"
proof (induction cs arbitrary: s)
  case Nil
  show ?case by simp
next
  case (Cons c cs)
  show ?case
  proof (cases "canceled c")
    case True
    then show ?thesis using Cons.IH by simp
  next
    case False
    then show ?thesis
      using Cons.IH
      by (cases "invoke (callback c) (s\<lparr>executed := executed s @ [c]\<rparr>)")
         (simp_all add: call_in_turn_simps fold_call_in_turn_Inl)
  qed
qed

lemma runCommands_loop_filter:
  "runCommands_loop cs s = runCommands_loop (filter (\<lambda>c. \<not> canceled c) cs) s"
  using runCommands_loop_fold [of cs s]
    runCommands_loop_fold [of "filter (\<lambda>c. \<not> canceled c) cs" s]
  by simp

lemma runCommands_loop_effects:
  "\<exists>n. executed (final (runCommands_loop cs s)) =
          executed s @ take n (filter (\<lambda>c. \<not> canceled c) cs) \<and>
        called (final (runCommands_loop cs s)) =
          called s @ concat (map (\<lambda>c. user_calls (callback c))
                               (take n (filter (\<lambda>c. \<not> canceled c) cs)))"
proof (induction cs arbitrary: s)
  case Nil
  show ?case by simp
next
  case (Cons c cs)
  show ?case
  proof (cases "canceled c")
    case True
    then show ?thesis using Cons.IH by simp
  next
    case False
    let ?s = "s\<lparr>executed := executed s @ [c]\<rparr>"
    have fr: "same_queue ?s (final (invoke (callback c) ?s))"
      by (rule invoke_frame)
    have ca: "called (final (invoke (callback c) ?s)) = called s @ user_calls (callback c)"
      using invoke_called [of "callback c" ?s] by simp
    show ?thesis
    proof (cases "invoke (callback c) ?s")
      case (Inl e)
      then have "final (runCommands_loop (c # cs) s) = final (invoke (callback c) ?s)"
        using False by simp
      then have "executed (final (runCommands_loop (c # cs) s)) =
                   executed s @ take 1 (filter (\<lambda>c. \<not> canceled c) (c # cs)) \<and>
                 called (final (runCommands_loop (c # cs) s)) =
                   called s @ concat (map (\<lambda>c. user_calls (callback c))
                                        (take 1 (filter (\<lambda>c. \<not> canceled c) (c # cs))))"
        using False fr ca by (simp add: same_queue_def)
      then show ?thesis by blast
    next
      case (Inr s')
      obtain n where n: "executed (final (runCommands_loop cs s')) =
            executed s' @ take n (filter (\<lambda>c. \<not> canceled c) cs)"
          "called (final (runCommands_loop cs s')) =
            called s' @ concat (map (\<lambda>c. user_calls (callback c))
                                  (take n (filter (\<lambda>c. \<not> canceled c) cs)))"
        using Cons.IH [of s'] by blast
      have "executed (final (runCommands_loop (c # cs) s)) =
                   executed s @ take (Suc n) (filter (\<lambda>c. \<not> canceled c) (c # cs)) \<and>
                 called (final (runCommands_loop (c # cs) s)) =
                   called s @ concat (map (\<lambda>c. user_calls (callback c))
                                        (take (Suc n) (filter (\<lambda>c. \<not> canceled c) (c # cs))))"
        using False Inr fr ca n by (simp add: same_queue_def)
      then show ?thesis by blast
    qed
  qed
qed

lemma runCommands_loop_normal_effects:
  "\<forall>c\<in>set cs. \<not> canceled c \<longrightarrow> returns_normally (callback c) \<Longrightarrow>
   \<exists>s'. runCommands_loop cs s = Inr s' \<and>
        executed s' = executed s @ filter (\<lambda>c. \<not> canceled c) cs \<and>
        called s' = called s @ concat (map (\<lambda>c. user_calls (callback c))
                                         (filter (\<lambda>c. \<not> canceled c) cs))"
proof (induction cs arbitrary: s)
  case Nil
  show ?case by simp
next
  case (Cons c cs)
  show ?case
  proof (cases "canceled c")
    case True
    then show ?thesis using Cons by simp
  next
    case False
    let ?s = "s\<lparr>executed := executed s @ [c]\<rparr>"
    from False Cons.prems have "returns_normally (callback c)" by simp
    then obtain s1 where s1: "invoke (callback c) ?s = Inr s1"
      using returns_normally_invoke by blast
    have ca: "called s1 = called s @ user_calls (callback c)"
      using invoke_called [of "callback c" ?s] s1 by simp
    from Cons.prems have rest: "\<forall>c\<in>set cs. \<not> canceled c \<longrightarrow> returns_normally (callback c)"
      by simp
    obtain s' where
      "runCommands_loop cs s1 = Inr s'"
      "executed s' = executed s1 @ filter (\<lambda>c. \<not> canceled c) cs"
      "called s' = called s1 @ concat (map (\<lambda>c. user_calls (callback c))
                                         (filter (\<lambda>c. \<not> canceled c) cs))"
      using Cons.IH [OF rest, of s1] by blast
    then show ?thesis
      using False s1 ca invoke_Inr_frame [OF s1] by (simp add: same_queue_def)
  qed
qed

lemma runCommands_loop_user:
  "\<forall>c\<in>set cs. \<not> canceled c \<longrightarrow> (\<exists>a. callback c = User a) \<Longrightarrow>
   runCommands_loop cs s =
     Inr (s\<lparr>executed := executed s @ filter (\<lambda>c. \<not> canceled c) cs,
            called := called s @ concat (map (\<lambda>c. user_calls (callback c))
                                           (filter (\<lambda>c. \<not> canceled c) cs))\<rparr>)"
proof (induction cs arbitrary: s)
  case Nil
  show ?case by simp
next
  case (Cons c cs)
  from Cons.prems have rest: "\<forall>c\<in>set cs. \<not> canceled c \<longrightarrow> (\<exists>a. callback c = User a)"
    by simp
  show ?case
  proof (cases "canceled c")
    case True
    then show ?thesis using Cons.IH [OF rest] by simp
  next
    case False
    with Cons.prems obtain a where a: "callback c = User a" by auto
    show ?thesis
      using False a Cons.IH [OF rest, of "s\<lparr>executed := executed s @ [c], called := called s @ [a]\<rparr>"]
      by simp
  qed
qed

lemma example_queue_commands:
  "commands example_queue =
     [\<lparr>callback = User 10, id_cmd = 1, canceled = False\<rparr>,
      \<lparr>callback = User 20, id_cmd = 2, canceled = True\<rparr>,
      \<lparr>callback = User 30, id_cmd = 3, canceled = False\<rparr>]"
  "nextCommandId example_queue = 4"
  "executed example_queue = []"
  "called example_queue = []"
  by (simp_all add: example_queue_def runLater_def push_back_def new_Command_def
      incNextCommandId_def ev_async_send_def cancelCommand_def SafeLibev_new_def
      MAX_COMMAND_ID_def Let_def)

lemma canceled_once_commands:
  "commands canceled_once = [\<lparr>callback = User 10, id_cmd = 1, canceled = True\<rparr>]"
  by (simp add: canceled_once_def runLater_def push_back_def new_Command_def
      incNextCommandId_def ev_async_send_def cancelCommand_def SafeLibev_new_def
      MAX_COMMAND_ID_def Let_def)

subsection \<open>The loop of \<^verbatim>\<open>cancelCommand\<close>\<close>

lemma cancelCommand_loop_found:
  "fst (cancelCommand_loop i cs) \<longleftrightarrow> list_ex (\<lambda>c. ucast (id_cmd c) = i) cs"
  by (induction cs) (auto split: prod.splits)

lemma cancelCommand_loop_not_found:
  "\<not> list_ex (\<lambda>c. ucast (id_cmd c) = i) cs \<Longrightarrow> cancelCommand_loop i cs = (False, cs)"
  by (induction cs) (auto split: prod.splits)

lemma cancelCommand_loop_first:
  "first_with_id i cs k \<Longrightarrow>
   cancelCommand_loop i cs = (True, cs[k := (cs ! k)\<lparr>canceled := True\<rparr>])"
proof (induction cs arbitrary: k)
  case Nil
  then show ?case by (simp add: first_with_id_def)
next
  case (Cons c cs)
  show ?case
  proof (cases k)
    case 0
    with Cons.prems show ?thesis by (simp add: first_with_id_def)
  next
    case (Suc m)
    from Cons.prems Suc have "ucast (id_cmd c) \<noteq> i"
      by (auto simp: first_with_id_def)
    moreover from Cons.prems Suc have "first_with_id i cs m"
      by (auto simp: first_with_id_def)
    ultimately show ?thesis using Cons.IH [of m] Suc by simp
  qed
qed

lemma list_ex_first_with_id:
  "list_ex (\<lambda>c. ucast (id_cmd c) = i) cs \<Longrightarrow> \<exists>k. first_with_id i cs k"
proof (induction cs)
  case Nil
  then show ?case by simp
next
  case (Cons c cs)
  show ?case
  proof (cases "ucast (id_cmd c) = i")
    case True
    then have "first_with_id i (c # cs) 0" by (simp add: first_with_id_def)
    then show ?thesis by blast
  next
    case False
    with Cons obtain k where k: "first_with_id i cs k" by auto
    have "first_with_id i (c # cs) (Suc k)"
      unfolding first_with_id_def
    proof (intro conjI allI impI)
      show "Suc k < length (c # cs)" using k by (simp add: first_with_id_def)
      show "ucast (id_cmd ((c # cs) ! Suc k)) = i" using k by (simp add: first_with_id_def)
      fix j assume "j < Suc k"
      then show "ucast (id_cmd ((c # cs) ! j)) \<noteq> i"
        using k False by (cases j) (auto simp: first_with_id_def)
    qed
    then show ?thesis by blast
  qed
qed

lemma first_with_id_has: "first_with_id i cs k \<Longrightarrow> list_ex (\<lambda>c. ucast (id_cmd c) = i) cs"
  by (auto simp: first_with_id_def list_ex_iff)

lemma first_with_id_unique: "first_with_id i cs k \<Longrightarrow> first_with_id i cs k' \<Longrightarrow> k = k'"
  by (metis first_with_id_def linorder_neqE_nat)

lemma cancelCommand_loop_nth:
  "length (snd (cancelCommand_loop i cs)) = length cs \<and>
   (\<forall>k<length cs. snd (cancelCommand_loop i cs) ! k = cs ! k \<or>
                  snd (cancelCommand_loop i cs) ! k = (cs ! k)\<lparr>canceled := True\<rparr>)"
proof (induction cs)
  case Nil
  show ?case by simp
next
  case (Cons c cs)
  show ?case
  proof (cases "ucast (id_cmd c) = i")
    case True
    then show ?thesis by (auto simp: nth_Cons split: nat.splits)
  next
    case False
    then show ?thesis using Cons.IH
      by (auto simp: nth_Cons split: nat.splits prod.splits)
  qed
qed

lemma cancelCommand_loop_ids:
  "list_all (\<lambda>c. id_cmd c \<noteq> 0) cs \<Longrightarrow>
   list_all (\<lambda>c. id_cmd c \<noteq> 0) (snd (cancelCommand_loop i cs))"
  by (induction cs) (auto split: prod.splits)

subsection \<open>The counter\<close>

text \<open>
  An id in the range survives the 31 bits of the bit-field, and is not 0 there; below the
  maximum the increment does not overflow.
\<close>

lemma ucast_id_roundtrip:
  "n \<le> MAX_COMMAND_ID \<Longrightarrow> ucast (ucast n :: 31 word) = (n :: uint)"
proof -
  assume "n \<le> MAX_COMMAND_ID"
  then have small: "unat n < 2 ^ 31"
    by (simp add: MAX_COMMAND_ID_def word_le_nat_alt)
  have "unat (ucast (ucast n :: 31 word) :: uint) = unat n"
    using small by (simp add: unsigned_ucast_eq unsigned_take_bit_eq take_bit_nat_eq_self)
  then show ?thesis by (simp add: word_unat_eq_iff)
qed

lemma ucast_id_nonzero:
  "1 \<le> n \<Longrightarrow> n \<le> MAX_COMMAND_ID \<Longrightarrow> (ucast (n :: uint) :: 31 word) \<noteq> 0"
proof
  assume "1 \<le> n" "n \<le> MAX_COMMAND_ID" "(ucast n :: 31 word) = 0"
  then have "ucast (ucast n :: 31 word) = (0 :: uint)" by simp
  then have "n = 0" using ucast_id_roundtrip [of n] \<open>n \<le> MAX_COMMAND_ID\<close> by simp
  with \<open>1 \<le> n\<close> show False by simp
qed

lemma inc_in_range:
  "1 \<le> n \<Longrightarrow> n \<le> MAX_COMMAND_ID \<Longrightarrow> n \<noteq> MAX_COMMAND_ID \<Longrightarrow>
   1 \<le> n + 1 \<and> n + 1 \<le> MAX_COMMAND_ID \<and> unat (n + 1) = unat n + 1"
proof -
  assume "1 \<le> n" "n \<le> MAX_COMMAND_ID" "n \<noteq> MAX_COMMAND_ID"
  then have n: "1 \<le> unat n" "unat n < 268435455"
    by (simp_all add: MAX_COMMAND_ID_def word_le_nat_alt word_unat_eq_iff)
  then have "unat n + unat (1 :: uint) < 2 ^ LENGTH(32)" by simp
  then have "unat (n + 1) = unat n + unat (1 :: uint)"
    by (simp only: unat_add_lem)
  then have suc: "unat (n + 1) = unat n + 1" by simp
  with n show ?thesis
    by (simp add: MAX_COMMAND_ID_def word_le_nat_alt)
qed

lemma ids_in_range_new: "ids_in_range (SafeLibev_new p t)"
  by (simp add: ids_in_range_def SafeLibev_new_def MAX_COMMAND_ID_def)

lemma ids_in_range_cong:
  "ids_in_range s \<Longrightarrow> commands s' = commands s \<Longrightarrow> nextCommandId s' = nextCommandId s \<Longrightarrow>
   ids_in_range s'"
  by (simp add: ids_in_range_def)

lemma incNextCommandId_frame:
  "commands (incNextCommandId s) = commands s"
  "ev_calls (incNextCommandId s) = ev_calls s"
  "called (incNextCommandId s) = called s"
  "executed (incNextCommandId s) = executed s"
  "done_flags (incNextCommandId s) = done_flags s"
  by (simp_all add: incNextCommandId_def)

lemma incNextCommandId_next:
  "nextCommandId (incNextCommandId s) =
     (if nextCommandId s = MAX_COMMAND_ID then 1 else nextCommandId s + 1)"
  by (simp add: incNextCommandId_def)

lemma incNextCommandId_in_range:
  assumes "1 \<le> nextCommandId s" and "nextCommandId s \<le> MAX_COMMAND_ID"
  shows "1 \<le> nextCommandId (incNextCommandId s)"
    and "nextCommandId (incNextCommandId s) \<le> MAX_COMMAND_ID"
    and "unat (nextCommandId (incNextCommandId s)) =
           (if unat (nextCommandId s) = 268435455 then 1 else unat (nextCommandId s) + 1)"
proof -
  show "1 \<le> nextCommandId (incNextCommandId s)"
    using assms inc_in_range [of "nextCommandId s"]
    by (simp add: incNextCommandId_next)
  show "nextCommandId (incNextCommandId s) \<le> MAX_COMMAND_ID"
    using assms inc_in_range [of "nextCommandId s"]
    by (simp add: incNextCommandId_next MAX_COMMAND_ID_def)
  have "nextCommandId s = MAX_COMMAND_ID \<longleftrightarrow> unat (nextCommandId s) = 268435455"
    by (simp add: MAX_COMMAND_ID_def word_unat_eq_iff)
  then show "unat (nextCommandId (incNextCommandId s)) =
           (if unat (nextCommandId s) = 268435455 then 1 else unat (nextCommandId s) + 1)"
    using assms inc_in_range [of "nextCommandId s"]
    by (simp add: incNextCommandId_next)
qed

lemma submit_in_range:
  assumes "ids_in_range s"
  shows "ids_in_range (incNextCommandId (push_back (new_Command (nextCommandId s) cb) s))"
proof -
  let ?s1 = "push_back (new_Command (nextCommandId s) cb) s"
  have n: "1 \<le> nextCommandId ?s1" "nextCommandId ?s1 \<le> MAX_COMMAND_ID"
    using assms by (simp_all add: ids_in_range_def push_back_def)
  have "id_cmd (new_Command (nextCommandId s) cb) \<noteq> 0"
    using assms ucast_id_nonzero [of "nextCommandId s"]
    by (simp add: ids_in_range_def new_Command_def)
  then have "list_all (\<lambda>c. id_cmd c \<noteq> 0) (commands ?s1)"
    using assms by (simp add: ids_in_range_def push_back_def)
  then show ?thesis
    using incNextCommandId_in_range(1,2) [OF n]
    by (simp add: ids_in_range_def incNextCommandId_frame)
qed

lemma invoke_in_range: "ids_in_range s \<Longrightarrow> ids_in_range (final (invoke cb s))"
  using invoke_frame [of s cb] by (simp add: same_queue_def ids_in_range_def)

lemma runAfter_in_range: "ids_in_range s \<Longrightarrow> ids_in_range (final (runAfter timeout cb s))"
  by (simp add: runAfter_def ids_in_range_def)

lemma runLater_in_range: "ids_in_range s \<Longrightarrow> ids_in_range (final (state_of (runLater cb s)))"
  using submit_in_range [of s cb]
  by (simp add: runLater_def Let_def ev_async_send_def ids_in_range_def)

lemma runSync_in_range: "ids_in_range s \<Longrightarrow> ids_in_range (final (state_of (runSync cb d s)))"
proof -
  assume a: "ids_in_range s"
  then have "ids_in_range (set_done d False s)"
    by (simp add: ids_in_range_def set_done_def)
  from submit_in_range [OF this, of "BindRunAndNotify cb d"] a show ?thesis
    by (simp add: runSync_def Let_def ev_async_send_def ids_in_range_def)
qed

lemma run_in_range: "ids_in_range s \<Longrightarrow> ids_in_range (final (state_of (run c cb d s)))"
proof -
  assume a: "ids_in_range s"
  show ?thesis
  proof (cases "cb \<noteq> Null \<and> onEventLoopThread c s")
    case True
    then show ?thesis
      using invoke_in_range [OF a, of cb]
      by (cases "invoke cb s") (auto simp: run_def)
  next
    case False
    then show ?thesis
      using a runSync_in_range [OF a, of cb d] by (auto simp: run_def)
  qed
qed

lemma start_in_range: "ids_in_range s \<Longrightarrow> ids_in_range (fst (start c w d s))"
proof -
  assume a: "ids_in_range s"
  then have "ids_in_range (set_done d False s)"
    by (simp add: ids_in_range_def set_done_def)
  from submit_in_range [OF this, of "BindStartWatcherAndNotify w d"] a show ?thesis
    by (simp add: start_def Let_def ev_async_send_def ids_in_range_def)
qed

lemma stop_in_range: "ids_in_range s \<Longrightarrow> ids_in_range (fst (stop c w d s))"
proof -
  assume a: "ids_in_range s"
  then have "ids_in_range (set_done d False s)"
    by (simp add: ids_in_range_def set_done_def)
  from submit_in_range [OF this, of "BindStopWatcherAndNotify w d"] a show ?thesis
    by (simp add: stop_def Let_def ev_async_send_def ids_in_range_def)
qed

lemma runAfterTS_in_range:
  "ids_in_range s \<Longrightarrow> ids_in_range (final (runAfterTS c timeout cb s))"
proof -
  assume a: "ids_in_range s"
  have "cb \<noteq> Null \<Longrightarrow> \<not> onEventLoopThread c s \<Longrightarrow>
        runAfterTS c timeout cb s = state_of (runLater (BindRunAfter timeout cb) s)"
    by (simp add: runAfterTS_def runLater_def Let_def)
  then show ?thesis
    using a runAfter_in_range [OF a, of timeout cb] runLater_in_range [OF a, of "BindRunAfter timeout cb"]
    by (cases "cb = Null"; cases "onEventLoopThread c s") (simp_all add: runAfterTS_def)
qed

lemma cancelCommand_in_range: "ids_in_range s \<Longrightarrow> ids_in_range (snd (cancelCommand i s))"
  using cancelCommand_loop_ids [of "commands s" i]
  by (auto simp: cancelCommand_def ids_in_range_def split: prod.splits)

lemma runCommands_in_range: "ids_in_range s \<Longrightarrow> ids_in_range (final (runCommands s))"
  using runCommands_loop_frame [of "commands s" "s\<lparr>commands := []\<rparr>"]
  by (simp add: runCommands_def ids_in_range_def)

lemma step_in_range: "ids_in_range s \<Longrightarrow> ids_in_range (final (step a s))"
  by (cases a)
     (simp_all add: setCurrentThread_def ids_in_range_cong [of s] start_in_range stop_in_range
        run_in_range runSync_in_range runAfter_in_range runAfterTS_in_range runLater_in_range
        cancelCommand_in_range asyncHandler_def runCommands_in_range timeoutHandler_def
        invoke_in_range)

lemma steps_in_range: "ids_in_range s \<Longrightarrow> ids_in_range (final (steps calls s))"
proof (induction calls arbitrary: s)
  case Nil
  then show ?case by simp
next
  case (Cons a calls)
  show ?case
  proof (cases "step a s")
    case (Inl e)
    then show ?thesis using step_in_range [OF Cons.prems, of a] by simp
  next
    case (Inr s')
    then show ?thesis using step_in_range [OF Cons.prems, of a] Cons.IH [of s'] by simp
  qed
qed

subsection \<open>Between two drains\<close>

text \<open>
  Every call but \<^verbatim>\<open>asyncHandler\<close> only appends commands and sets \<open>canceled\<close> flags. So a
  canceled command stays where it is, canceled, until the vector is drained. And a drain
  calls no command whose flag is set.
\<close>

lemma oac_same: "commands s' = commands s \<Longrightarrow> executed s' = executed s \<Longrightarrow>
  only_appends_and_cancels s s'"
  by (simp add: only_appends_and_cancels_def)

lemma oac_append: "commands s' = commands s @ [c] \<Longrightarrow> executed s' = executed s \<Longrightarrow>
  only_appends_and_cancels s s'"
  by (simp add: only_appends_and_cancels_def nth_append)

lemma oac_invoke: "only_appends_and_cancels s (final (invoke cb s))"
  using invoke_frame [of s cb] by (simp add: same_queue_def oac_same)

lemma oac_runAfter: "only_appends_and_cancels s (final (runAfter timeout cb s))"
  by (simp add: runAfter_def oac_same)

lemma oac_runLater: "only_appends_and_cancels s (final (state_of (runLater cb s)))"
  by (cases "cb = Null")
     (simp_all add: runLater_def Let_def ev_async_send_def push_back_def
        incNextCommandId_frame oac_same oac_append)

lemma oac_runSync: "only_appends_and_cancels s (final (state_of (runSync cb d s)))"
  by (cases "cb = Null")
     (simp_all add: runSync_def Let_def ev_async_send_def push_back_def set_done_def
        incNextCommandId_frame oac_same oac_append)

lemma oac_run: "only_appends_and_cancels s (final (state_of (run c cb d s)))"
proof (cases "cb \<noteq> Null \<and> onEventLoopThread c s")
  case True
  then show ?thesis
    using oac_invoke [of s cb] by (cases "invoke cb s") (auto simp: run_def)
next
  case False
  then show ?thesis
    using oac_runSync [of s cb d] by (auto simp: run_def oac_same)
qed

lemma oac_start: "only_appends_and_cancels s (fst (start c w d s))"
  by (simp add: start_def Let_def ev_async_send_def push_back_def set_done_def
        incNextCommandId_frame oac_same oac_append)

lemma oac_stop: "only_appends_and_cancels s (fst (stop c w d s))"
  by (simp add: stop_def Let_def ev_async_send_def push_back_def set_done_def
        incNextCommandId_frame oac_same oac_append)

lemma oac_runAfterTS: "only_appends_and_cancels s (final (runAfterTS c timeout cb s))"
proof -
  have "cb \<noteq> Null \<Longrightarrow> \<not> onEventLoopThread c s \<Longrightarrow>
        runAfterTS c timeout cb s = state_of (runLater (BindRunAfter timeout cb) s)"
    by (simp add: runAfterTS_def runLater_def Let_def)
  then show ?thesis
    using oac_runAfter [of s timeout cb] oac_runLater [of s "BindRunAfter timeout cb"]
    by (cases "cb = Null"; cases "onEventLoopThread c s") (simp_all add: runAfterTS_def oac_same)
qed

lemma oac_cancelCommand: "only_appends_and_cancels s (snd (cancelCommand i s))"
  using cancelCommand_loop_nth [of i "commands s"]
  by (auto simp: cancelCommand_def only_appends_and_cancels_def split: prod.splits)

lemma oac_step: "a \<noteq> Call_asyncHandler \<Longrightarrow> only_appends_and_cancels s (final (step a s))"
  by (cases a)
     (simp_all add: setCurrentThread_def oac_same oac_start oac_stop oac_run oac_runSync
        oac_runAfter oac_runAfterTS oac_runLater oac_cancelCommand timeoutHandler_def oac_invoke)

lemma oac_keeps_canceled:
  assumes "only_appends_and_cancels s s'" and "k < length (commands s)"
    and "canceled (commands s ! k)"
  shows "k < length (commands s') \<and> commands s' ! k = commands s ! k \<and> executed s' = executed s"
proof -
  have "(commands s ! k)\<lparr>canceled := True\<rparr> = commands s ! k"
    using assms(3) by simp
  then show ?thesis
    using assms(1,2) by (auto simp: only_appends_and_cancels_def)
qed

lemma steps_keep_canceled:
  "Call_asyncHandler \<notin> set calls \<Longrightarrow> k < length (commands s) \<Longrightarrow> canceled (commands s ! k) \<Longrightarrow>
   k < length (commands (final (steps calls s))) \<and>
   commands (final (steps calls s)) ! k = commands s ! k \<and>
   executed (final (steps calls s)) = executed s"
proof (induction calls arbitrary: s)
  case Nil
  then show ?case by simp
next
  case (Cons a calls)
  from Cons.prems have a: "a \<noteq> Call_asyncHandler" and rest: "Call_asyncHandler \<notin> set calls"
    by auto
  note keep = oac_keeps_canceled [OF oac_step [OF a, of s] Cons.prems(2,3)]
  show ?case
  proof (cases "step a s")
    case (Inl e)
    then show ?thesis using keep by simp
  next
    case (Inr s')
    with keep have k': "k < length (commands s')" "canceled (commands s' ! k)"
      and same: "commands s' ! k = commands s ! k" "executed s' = executed s"
      using Cons.prems(3) by simp_all
    from Cons.IH [OF rest k'] same Inr show ?thesis by simp
  qed
qed

lemma filter_skips_canceled:
  assumes "k < length cs" and "canceled (cs ! k)"
  shows "filter (\<lambda>c. \<not> canceled c) cs =
         filter (\<lambda>c. \<not> canceled c) (take k cs @ drop (Suc k) cs)"
proof -
  have "cs = take k cs @ cs ! k # drop (Suc k) cs"
    using assms(1) by (rule id_take_nth_drop)
  then have "filter (\<lambda>c. \<not> canceled c) cs =
             filter (\<lambda>c. \<not> canceled c) (take k cs @ cs ! k # drop (Suc k) cs)"
    by simp
  then show ?thesis using assms(2) by simp
qed

lemma filter_without_canceled:
  "k < length cs \<Longrightarrow> canceled (cs ! k) \<Longrightarrow>
   filter (\<lambda>c. \<not> canceled c) (without_nth k cs) = filter (\<lambda>c. \<not> canceled c) cs"
  using filter_skips_canceled [of k cs] by (simp add: without_nth_def)

lemma canceled_then_submitted_commands:
  "commands canceled_then_submitted =
     [\<lparr>callback = User 10, id_cmd = 1, canceled = False\<rparr>,
      \<lparr>callback = User 20, id_cmd = 2, canceled = True\<rparr>,
      \<lparr>callback = User 30, id_cmd = 3, canceled = True\<rparr>,
      \<lparr>callback = User 40, id_cmd = 4, canceled = False\<rparr>]"
  "executed canceled_then_submitted = []"
  "called canceled_then_submitted = []"
  by (simp_all add: canceled_then_submitted_def cancelCommand_def example_queue_commands
      runLater_def push_back_def new_Command_def incNextCommandId_def ev_async_send_def
      MAX_COMMAND_ID_def Let_def)

lemma example_queue_first_3: "first_with_id 3 (commands example_queue) 2"
proof -
  have small: "j < 2 \<Longrightarrow> j = 0 \<or> j = 1" for j :: nat by arith
  have before: "ucast (id_cmd (commands example_queue ! j)) \<noteq> (3 :: uint)" if "j < 2" for j
    using small [OF that] by (auto simp: example_queue_commands)
  have here: "2 < length (commands example_queue)"
    "ucast (id_cmd (commands example_queue ! 2)) = (3 :: uint)"
    by (simp_all add: example_queue_commands)
  from before here show ?thesis
    unfolding first_with_id_def by blast
qed

lemma step_executes_live:
  "\<exists>xs. executed (final (step a s)) = executed s @ xs \<and> list_all (\<lambda>c. \<not> canceled c) xs"
proof (cases "a = Call_asyncHandler")
  case True
  obtain n where "executed (final (runCommands_loop (commands s) (s\<lparr>commands := []\<rparr>))) =
      executed s @ take n (filter (\<lambda>c. \<not> canceled c) (commands s))"
    using runCommands_loop_executed [of "commands s" "s\<lparr>commands := []\<rparr>"] by auto
  moreover have "list_all (\<lambda>c. \<not> canceled c) (take n (filter (\<lambda>c. \<not> canceled c) (commands s)))"
    by (auto simp: list_all_iff dest: in_set_takeD)
  ultimately show ?thesis
    using True by (auto simp: asyncHandler_def runCommands_def)
next
  case False
  then have "executed (final (step a s)) = executed s"
    using oac_step [of a s] by (simp add: only_appends_and_cancels_def)
  then show ?thesis by simp
qed

lemma steps_execute_live:
  "\<exists>xs. executed (final (steps calls s)) = executed s @ xs \<and> list_all (\<lambda>c. \<not> canceled c) xs"
proof (induction calls arbitrary: s)
  case Nil
  show ?case by simp
next
  case (Cons a calls)
  obtain xs where xs: "executed (final (step a s)) = executed s @ xs"
    "list_all (\<lambda>c. \<not> canceled c) xs"
    using step_executes_live [of a s] by blast
  show ?case
  proof (cases "step a s")
    case (Inl e)
    then show ?thesis using xs by auto
  next
    case (Inr s')
    obtain ys where ys: "executed (final (steps calls s')) = executed s' @ ys"
      "list_all (\<lambda>c. \<not> canceled c) ys"
      using Cons.IH [of s'] by blast
    have "executed (final (steps (a # calls) s)) = executed s @ (xs @ ys)"
      using Inr xs ys by simp
    moreover have "list_all (\<lambda>c. \<not> canceled c) (xs @ ys)"
      using xs ys by simp
    ultimately show ?thesis by blast
  qed
qed

section \<open>The claims\<close>

subsection \<open>C1: a drain empties the queue and runs what is not canceled, in order\<close>

text \<open>
  Claim C1. For every state of the queue, \<^verbatim>\<open>runCommands\<close> takes all pending commands out
  of the queue, which is empty afterwards, and calls the ones that are not canceled, in the
  order of their submission; a canceled command is skipped and never called.

  The drain is: empty the queue, then call the pending commands that are not canceled one
  after the other, in the queue's order, up to the first call that fails (\<open>call_in_turn\<close>
  is the call of a command's callback; the canceled commands are not among those it is
  applied to). So in every outcome the queue ends empty, and for some \<open>n\<close> the commands
  called (\<open>executed\<close>) are the first \<open>n\<close> pending commands that are not canceled and the
  closures of the caller that have run (\<open>called\<close>) are those of these \<open>n\<close> commands, in
  order. When every pending callback that is not canceled returns normally, the drain
  returns and these are all of them. When they are closures of the caller, nothing else
  of the state changes.
\<close>

theorem runCommands_drains_and_executes_fifo:
  "runCommands s =
     fold call_in_turn (filter (\<lambda>c. \<not> canceled c) (commands s)) (Inr (s\<lparr>commands := []\<rparr>)) \<and>
   commands (final (runCommands s)) = [] \<and>
   (\<exists>n. executed (final (runCommands s)) =
           executed s @ take n (filter (\<lambda>c. \<not> canceled c) (commands s)) \<and>
         called (final (runCommands s)) =
           called s @ concat (map (\<lambda>c. user_calls (callback c))
                                (take n (filter (\<lambda>c. \<not> canceled c) (commands s))))) \<and>
   ((\<forall>c\<in>set (commands s). \<not> canceled c \<longrightarrow> returns_normally (callback c)) \<longrightarrow>
    (\<exists>s'. runCommands s = Inr s' \<and> commands s' = [] \<and>
          executed s' = executed s @ filter (\<lambda>c. \<not> canceled c) (commands s) \<and>
          called s' =
            called s @ concat (map (\<lambda>c. user_calls (callback c))
                                 (filter (\<lambda>c. \<not> canceled c) (commands s))))) \<and>
   ((\<forall>c\<in>set (commands s). \<not> canceled c \<longrightarrow> (\<exists>a. callback c = User a)) \<longrightarrow>
    runCommands s =
      Inr (s\<lparr>commands := [],
             executed := executed s @ filter (\<lambda>c. \<not> canceled c) (commands s),
             called := called s @ concat (map (\<lambda>c. user_calls (callback c))
                                            (filter (\<lambda>c. \<not> canceled c) (commands s)))\<rparr>))"
proof -
  let ?s0 = "s\<lparr>commands := []\<rparr>"
  let ?live = "filter (\<lambda>c. \<not> canceled c) (commands s)"
  have run: "runCommands s = runCommands_loop (commands s) ?s0"
    by (simp add: runCommands_def)
  have folded: "runCommands s = fold call_in_turn ?live (Inr ?s0)"
    using runCommands_loop_fold [of "commands s" ?s0] by (simp add: run)
  have empty: "commands (final (runCommands s)) = []"
    using runCommands_loop_frame [of "commands s" ?s0] by (simp add: run)
  have some: "\<exists>n. executed (final (runCommands s)) = executed s @ take n ?live \<and>
                  called (final (runCommands s)) =
                    called s @ concat (map (\<lambda>c. user_calls (callback c)) (take n ?live))"
    using runCommands_loop_effects [of "commands s" ?s0] by (simp add: run)
  have all: "\<exists>s'. runCommands s = Inr s' \<and> commands s' = [] \<and>
                 executed s' = executed s @ ?live \<and>
                 called s' = called s @ concat (map (\<lambda>c. user_calls (callback c)) ?live)"
    if live: "\<forall>c\<in>set (commands s). \<not> canceled c \<longrightarrow> returns_normally (callback c)"
  proof -
    obtain s' where s': "runCommands_loop (commands s) ?s0 = Inr s'"
      "executed s' = executed ?s0 @ ?live"
      "called s' = called ?s0 @ concat (map (\<lambda>c. user_calls (callback c)) ?live)"
      using runCommands_loop_normal_effects [OF live, of ?s0] by blast
    then have "commands s' = []" using empty by (simp add: run)
    with s' show ?thesis by (simp add: run)
  qed
  have user: "runCommands s =
      Inr (s\<lparr>commands := [], executed := executed s @ ?live,
             called := called s @ concat (map (\<lambda>c. user_calls (callback c)) ?live)\<rparr>)"
    if closures: "\<forall>c\<in>set (commands s). \<not> canceled c \<longrightarrow> (\<exists>a. callback c = User a)"
    using runCommands_loop_user [OF closures, of ?s0] by (simp add: run)
  from folded empty some all user show ?thesis by blast
qed

theorem runCommands_drains_and_executes_fifo_witness:
  "runCommands example_queue =
     Inr (example_queue\<lparr>commands := [],
            executed := [\<lparr>callback = User 10, id_cmd = 1, canceled = False\<rparr>,
                         \<lparr>callback = User 30, id_cmd = 3, canceled = False\<rparr>],
            called := [10, 30]\<rparr>)"
proof -
  have closures:
    "\<forall>c\<in>set (commands example_queue). \<not> canceled c \<longrightarrow> (\<exists>a. callback c = User a)"
    by (simp add: example_queue_commands)
  from runCommands_drains_and_executes_fifo [of example_queue] closures
  have "runCommands example_queue =
      Inr (example_queue\<lparr>commands := [],
             executed := executed example_queue @
                         filter (\<lambda>c. \<not> canceled c) (commands example_queue),
             called := called example_queue @
                       concat (map (\<lambda>c. user_calls (callback c))
                                 (filter (\<lambda>c. \<not> canceled c) (commands example_queue)))\<rparr>)"
    by blast
  then show ?thesis by (simp add: example_queue_commands)
qed

subsection \<open>C2: what \<^verbatim>\<open>cancelCommand\<close> returns\<close>

text \<open>
  Claim C2 says that \<^verbatim>\<open>cancelCommand(id)\<close>, for an id other than 0, returns true if and only
  if the queue holds a command with that id that is not yet canceled. The loop does not
  look at the \<open>canceled\<close> flag: it returns true for a command that is canceled already.
  After one \<^verbatim>\<open>runLater\<close> (which assigns the id 1) and one \<^verbatim>\<open>cancelCommand(1)\<close>, a second
  \<^verbatim>\<open>cancelCommand(1)\<close> returns true, though no command with the id 1 is left that is not
  canceled.
\<close>

theorem cancelCommand_true_without_live_command:
  "fst (cancelCommand 1 canceled_once) \<and> \<not> has_live_command 1 canceled_once"
  by (simp add: cancelCommand_def has_live_command_def canceled_once_commands)

text \<open>
  Claim C2, amended. For an id other than 0, \<^verbatim>\<open>cancelCommand(id)\<close> returns true if and only
  if the queue holds a command with that id, canceled already or not. It then sets
  \<open>canceled\<close> in the first such command and changes nothing else. When the queue holds no
  command with that id (it was drained, or never existed), \<^verbatim>\<open>cancelCommand\<close> returns false
  and changes nothing.
\<close>

theorem cancelCommand_true_iff_has_command:
  assumes "i \<noteq> 0"
  shows "(fst (cancelCommand i s) \<longleftrightarrow> has_command i s) \<and>
         (has_command i s \<longrightarrow>
            (\<exists>k. first_with_id i (commands s) k \<and>
                 cancelCommand i s =
                   (True, s\<lparr>commands := (commands s)[k := (commands s ! k)\<lparr>canceled := True\<rparr>]\<rparr>))) \<and>
         (\<not> has_command i s \<longrightarrow> cancelCommand i s = (False, s))"
proof (intro conjI impI)
  show "fst (cancelCommand i s) \<longleftrightarrow> has_command i s"
    using assms cancelCommand_loop_found [of i "commands s"]
    by (auto simp: cancelCommand_def has_command_def split: prod.splits)
next
  assume "has_command i s"
  then obtain k where k: "first_with_id i (commands s) k"
    using list_ex_first_with_id by (auto simp: has_command_def)
  have "cancelCommand i s =
          (True, s\<lparr>commands := (commands s)[k := (commands s ! k)\<lparr>canceled := True\<rparr>]\<rparr>)"
    using assms cancelCommand_loop_first [OF k] by (simp add: cancelCommand_def)
  with k show "\<exists>k. first_with_id i (commands s) k \<and>
                 cancelCommand i s =
                   (True, s\<lparr>commands := (commands s)[k := (commands s ! k)\<lparr>canceled := True\<rparr>]\<rparr>)"
    by blast
next
  assume "\<not> has_command i s"
  then show "cancelCommand i s = (False, s)"
    using assms cancelCommand_loop_not_found [of i "commands s"]
    by (simp add: cancelCommand_def has_command_def)
qed

theorem cancelCommand_true_iff_has_command_witness:
  "fst (cancelCommand 2 example_queue) \<and> has_command 2 example_queue \<and>
   \<not> fst (cancelCommand 7 example_queue) \<and> cancelCommand 7 example_queue = (False, example_queue)"
  using cancelCommand_true_iff_has_command [of 2 example_queue]
    cancelCommand_true_iff_has_command [of 7 example_queue]
  by (simp add: has_command_def example_queue_commands)

subsection \<open>C3: a canceled command is never run\<close>

text \<open>
  Claim C3. When \<^verbatim>\<open>cancelCommand(id)\<close> returns true for a command that is still in the queue,
  no later drain calls that command's callback.

  The command marked is the first one with that id, at position \<open>k\<close>. After any calls of
  the public member functions and of \<^verbatim>\<open>timeoutHandler\<close> (any calls but a drain), the command
  is still at position \<open>k\<close> and still canceled, and nothing has been called by a drain in
  between. The next drain does exactly what it would do if the command were not in the
  queue: same result, same state. Whether it returns or fails, the commands it calls and
  the closures of the caller that run are those of the first \<open>n\<close> commands, for some
  \<open>n\<close>, among the ones at the other positions that are not canceled; all of these when
  their callbacks return normally. It leaves the queue empty: the command is gone, so no
  drain after that one can call it either. And in any run of calls whatever, drains
  included, every command that a drain calls is one whose \<open>canceled\<close> is not set when it is
  called.
\<close>

theorem cancelCommand_true_never_executed:
  assumes "cancelCommand i s = (True, s1)"
  shows "(\<exists>k. first_with_id i (commands s) k \<and>
           commands s1 = (commands s)[k := (commands s ! k)\<lparr>canceled := True\<rparr>] \<and>
           (\<forall>calls. Call_asyncHandler \<notin> set calls \<longrightarrow>
              (let s2 = final (steps calls s1);
                   s3 = final (runCommands s2);
                   others = filter (\<lambda>c. \<not> canceled c) (without_nth k (commands s2))
               in k < length (commands s2) \<and>
                  commands s2 ! k = (commands s ! k)\<lparr>canceled := True\<rparr> \<and>
                  executed s2 = executed s \<and>
                  runCommands s2 = runCommands (s2\<lparr>commands := without_nth k (commands s2)\<rparr>) \<and>
                  (\<exists>n. executed s3 = executed s @ take n others \<and>
                       called s3 =
                         called s2 @ concat (map (\<lambda>c. user_calls (callback c)) (take n others))) \<and>
                  ((\<forall>c\<in>set others. returns_normally (callback c)) \<longrightarrow>
                     (\<exists>s'. runCommands s2 = Inr s' \<and> commands s' = [] \<and>
                           executed s' = executed s @ others \<and>
                           called s' =
                             called s2 @ concat (map (\<lambda>c. user_calls (callback c)) others))) \<and>
                  commands s3 = []))) \<and>
         (\<forall>calls. \<exists>xs. executed (final (steps calls s1)) = executed s @ xs \<and>
                        list_all (\<lambda>c. \<not> canceled c) xs)"
proof -
  from assms have nz: "i \<noteq> 0"
    by (auto simp: cancelCommand_def)
  from assms have "fst (cancelCommand i s)" by simp
  then have "has_command i s"
    using nz cancelCommand_loop_found [of i "commands s"]
    by (auto simp: cancelCommand_def has_command_def split: prod.splits)
  then obtain k where k: "first_with_id i (commands s) k"
    using list_ex_first_with_id by (auto simp: has_command_def)
  let ?c = "(commands s ! k)\<lparr>canceled := True\<rparr>"
  have s1: "s1 = s\<lparr>commands := (commands s)[k := ?c]\<rparr>"
    using assms nz cancelCommand_loop_first [OF k] by (simp add: cancelCommand_def)
  have at: "k < length (commands s1)" "commands s1 ! k = ?c" "canceled (commands s1 ! k)"
    and ex: "executed s1 = executed s"
    using k by (simp_all add: s1 first_with_id_def)
  have later: "k < length (commands s2) \<and> commands s2 ! k = ?c \<and> executed s2 = executed s \<and>
       runCommands s2 = runCommands (s2\<lparr>commands := without_nth k (commands s2)\<rparr>) \<and>
       (\<exists>n. executed s3 = executed s @ take n others \<and>
            called s3 = called s2 @ concat (map (\<lambda>c. user_calls (callback c)) (take n others))) \<and>
       ((\<forall>c\<in>set others. returns_normally (callback c)) \<longrightarrow>
          (\<exists>s'. runCommands s2 = Inr s' \<and> commands s' = [] \<and>
                executed s' = executed s @ others \<and>
                called s' = called s2 @ concat (map (\<lambda>c. user_calls (callback c)) others))) \<and>
       commands s3 = []"
    if calls: "Call_asyncHandler \<notin> set calls"
      and s2: "s2 = final (steps calls s1)" and s3: "s3 = final (runCommands s2)"
      and others: "others = filter (\<lambda>c. \<not> canceled c) (without_nth k (commands s2))"
    for calls s2 s3 others
  proof -
    let ?s0 = "s2\<lparr>commands := []\<rparr>"
    from steps_keep_canceled [OF calls at(1,3)]
    have k2: "k < length (commands s2)" and c2: "commands s2 ! k = ?c"
      and e2: "executed s2 = executed s"
      by (simp_all add: s2 at(2) ex)
    have "canceled (commands s2 ! k)" by (simp add: c2)
    note skip = filter_without_canceled [OF k2 this]
    have live: "filter (\<lambda>c. \<not> canceled c) (commands s2) = others"
      by (simp add: others skip)
    have run: "runCommands s2 = runCommands_loop (commands s2) ?s0"
      by (simp add: runCommands_def)
    have "runCommands (s2\<lparr>commands := without_nth k (commands s2)\<rparr>) =
            runCommands_loop (without_nth k (commands s2)) ?s0"
      by (simp add: runCommands_def)
    also have "\<dots> = runCommands_loop others ?s0"
      using runCommands_loop_filter [of "without_nth k (commands s2)" ?s0] by (simp add: others)
    also have "\<dots> = runCommands_loop (commands s2) ?s0"
      using runCommands_loop_filter [of "commands s2" ?s0] by (simp add: live)
    finally have absent:
      "runCommands s2 = runCommands (s2\<lparr>commands := without_nth k (commands s2)\<rparr>)"
      by (simp add: run)
    have some: "\<exists>n. executed s3 = executed s @ take n others \<and>
            called s3 = called s2 @ concat (map (\<lambda>c. user_calls (callback c)) (take n others))"
      using runCommands_loop_effects [of "commands s2" ?s0] by (simp add: s3 run live e2)
    have empty: "commands s3 = []"
      using runCommands_loop_frame [of "commands s2" ?s0] by (simp add: s3 run)
    have all: "\<exists>s'. runCommands s2 = Inr s' \<and> commands s' = [] \<and>
                executed s' = executed s @ others \<and>
                called s' = called s2 @ concat (map (\<lambda>c. user_calls (callback c)) others)"
      if normal: "\<forall>c\<in>set others. returns_normally (callback c)"
    proof -
      have "\<forall>c\<in>set (commands s2). \<not> canceled c \<longrightarrow> returns_normally (callback c)"
        using normal live [symmetric] by simp
      from runCommands_loop_normal_effects [OF this, of ?s0] obtain s' where
        s': "runCommands_loop (commands s2) ?s0 = Inr s'"
          "executed s' = executed ?s0 @ filter (\<lambda>c. \<not> canceled c) (commands s2)"
          "called s' = called ?s0 @ concat (map (\<lambda>c. user_calls (callback c))
                                              (filter (\<lambda>c. \<not> canceled c) (commands s2)))"
        by blast
      then have "commands s' = []" using empty by (simp add: s3 run)
      with s' show ?thesis by (simp add: run live e2)
    qed
    from k2 c2 e2 absent some all empty show ?thesis by blast
  qed
  have "commands s1 = (commands s)[k := ?c]" by (simp add: s1)
  with k later have first: "\<exists>k. first_with_id i (commands s) k \<and>
           commands s1 = (commands s)[k := (commands s ! k)\<lparr>canceled := True\<rparr>] \<and>
           (\<forall>calls. Call_asyncHandler \<notin> set calls \<longrightarrow>
              (let s2 = final (steps calls s1);
                   s3 = final (runCommands s2);
                   others = filter (\<lambda>c. \<not> canceled c) (without_nth k (commands s2))
               in k < length (commands s2) \<and>
                  commands s2 ! k = (commands s ! k)\<lparr>canceled := True\<rparr> \<and>
                  executed s2 = executed s \<and>
                  runCommands s2 = runCommands (s2\<lparr>commands := without_nth k (commands s2)\<rparr>) \<and>
                  (\<exists>n. executed s3 = executed s @ take n others \<and>
                       called s3 =
                         called s2 @ concat (map (\<lambda>c. user_calls (callback c)) (take n others))) \<and>
                  ((\<forall>c\<in>set others. returns_normally (callback c)) \<longrightarrow>
                     (\<exists>s'. runCommands s2 = Inr s' \<and> commands s' = [] \<and>
                           executed s' = executed s @ others \<and>
                           called s' =
                             called s2 @ concat (map (\<lambda>c. user_calls (callback c)) others))) \<and>
                  commands s3 = []))"
    unfolding Let_def by blast
  have ever: "\<exists>xs. executed (final (steps calls s1)) = executed s @ xs \<and>
                 list_all (\<lambda>c. \<not> canceled c) xs" for calls
    using steps_execute_live [of calls s1] by (simp add: ex)
  from first ever show ?thesis by blast
qed

theorem cancelCommand_true_never_executed_witness:
  "fst (cancelCommand 3 example_queue) \<and>
   canceled (commands canceled_then_submitted ! 2) \<and>
   callback (commands canceled_then_submitted ! 2) = User 30 \<and>
   runCommands canceled_then_submitted =
     runCommands (canceled_then_submitted
                    \<lparr>commands := without_nth 2 (commands canceled_then_submitted)\<rparr>) \<and>
   (\<exists>s'. runCommands canceled_then_submitted = Inr s' \<and> commands s' = [] \<and>
         executed s' = [\<lparr>callback = User 10, id_cmd = 1, canceled = False\<rparr>,
                        \<lparr>callback = User 40, id_cmd = 4, canceled = False\<rparr>] \<and>
         called s' = [10, 40])"
proof -
  let ?s1 = "snd (cancelCommand 3 example_queue)"
  let ?s2 = "canceled_then_submitted"
  let ?others = "filter (\<lambda>c. \<not> canceled c) (without_nth 2 (commands ?s2))"
  have t: "fst (cancelCommand 3 example_queue)"
    by (simp add: cancelCommand_def example_queue_commands)
  then have c: "cancelCommand 3 example_queue = (True, ?s1)"
    by (cases "cancelCommand 3 example_queue") simp
  from cancelCommand_true_never_executed [OF c, THEN conjunct1] obtain k where
    k: "first_with_id 3 (commands example_queue) k"
    and later: "\<forall>calls. Call_asyncHandler \<notin> set calls \<longrightarrow>
              (let s2 = final (steps calls ?s1);
                   s3 = final (runCommands s2);
                   others = filter (\<lambda>c. \<not> canceled c) (without_nth k (commands s2))
               in k < length (commands s2) \<and>
                  commands s2 ! k = (commands example_queue ! k)\<lparr>canceled := True\<rparr> \<and>
                  executed s2 = executed example_queue \<and>
                  runCommands s2 = runCommands (s2\<lparr>commands := without_nth k (commands s2)\<rparr>) \<and>
                  (\<exists>n. executed s3 = executed example_queue @ take n others \<and>
                       called s3 =
                         called s2 @ concat (map (\<lambda>c. user_calls (callback c)) (take n others))) \<and>
                  ((\<forall>c\<in>set others. returns_normally (callback c)) \<longrightarrow>
                     (\<exists>s'. runCommands s2 = Inr s' \<and> commands s' = [] \<and>
                           executed s' = executed example_queue @ others \<and>
                           called s' =
                             called s2 @ concat (map (\<lambda>c. user_calls (callback c)) others))) \<and>
                  commands s3 = [])"
    by blast
  have k2: "k = 2"
    using first_with_id_unique [OF k example_queue_first_3] .
  have "Call_asyncHandler \<notin> set [Call_runLater (User 40 :: nat Callback)]" by simp
  with later have
    absent: "runCommands ?s2 = runCommands (?s2\<lparr>commands := without_nth 2 (commands ?s2)\<rparr>)"
    and all: "(\<forall>c\<in>set ?others. returns_normally (callback c)) \<longrightarrow>
                (\<exists>s'. runCommands ?s2 = Inr s' \<and> commands s' = [] \<and>
                      executed s' = executed example_queue @ ?others \<and>
                      called s' = called ?s2 @ concat (map (\<lambda>c. user_calls (callback c)) ?others))"
    unfolding Let_def canceled_then_submitted_def k2 by blast+
  have others: "?others = [\<lparr>callback = User 10, id_cmd = 1, canceled = False\<rparr>,
                          \<lparr>callback = User 40, id_cmd = 4, canceled = False\<rparr>]"
    by (simp add: without_nth_def canceled_then_submitted_commands)
  from all have "\<exists>s'. runCommands ?s2 = Inr s' \<and> commands s' = [] \<and>
         executed s' = [\<lparr>callback = User 10, id_cmd = 1, canceled = False\<rparr>,
                        \<lparr>callback = User 40, id_cmd = 4, canceled = False\<rparr>] \<and>
         called s' = [10, 40]"
    unfolding others by (simp add: example_queue_commands canceled_then_submitted_commands)
  with t absent show ?thesis
    by (simp add: canceled_then_submitted_commands)
qed

subsection \<open>C4: the id 0\<close>

text \<open>
  Claim C4. For every state of the queue, \<^verbatim>\<open>cancelCommand(0)\<close> returns false and leaves the
  object as it was.
\<close>

theorem cancelCommand_zero: "cancelCommand 0 s = (False, s)"
  by (simp add: cancelCommand_def)

theorem cancelCommand_zero_witness:
  "cancelCommand 0 example_queue = (False, example_queue) \<and> commands example_queue \<noteq> []"
  using cancelCommand_zero [of example_queue] by (simp add: example_queue_commands)

subsection \<open>C5: the id counter\<close>

text \<open>
  Claim C5. The counter \<^verbatim>\<open>nextCommandId\<close> starts at 1, stays between 1 and 268435455 for
  ever, and advances by one with every submission, except that from 268435455 it goes
  back to 1; it is never 0, so no id that is assigned is 0.

  The constructor sets the counter to 1. After any run of calls from the constructor on
  (whether the last call returned or failed) the counter is in the range and no command
  in the queue has the id 0. \<^verbatim>\<open>incNextCommandId\<close> goes from the maximum to 1 and adds one
  otherwise, which in the range is the successor as a number (no overflow of the 32 bits)
  and never 0. Each of the four submissions (\<^verbatim>\<open>runLater\<close>, \<^verbatim>\<open>runSync\<close>, and \<^verbatim>\<open>start\<close> and
  \<^verbatim>\<open>stop\<close> from another thread) moves the counter by one \<^verbatim>\<open>incNextCommandId\<close>. In the
  range, the id \<^verbatim>\<open>runLater\<close> returns is not 0 and is the id stored in the new command.
\<close>

theorem nextCommandId_stays_in_range:
  "nextCommandId (SafeLibev_new p t) = 1 \<and>
   (\<forall>calls. ids_in_range (final (steps calls (SafeLibev_new p t :: 'a SafeLibev)))) \<and>
   nextCommandId (incNextCommandId s) =
     (if nextCommandId s = MAX_COMMAND_ID then 1 else nextCommandId s + 1) \<and>
   (ids_in_range s \<longrightarrow>
      unat (nextCommandId (incNextCommandId s)) =
        (if unat (nextCommandId s) = 268435455 then 1 else unat (nextCommandId s) + 1) \<and>
      nextCommandId (incNextCommandId s) \<noteq> 0) \<and>
   (cb \<noteq> Null \<longrightarrow>
      nextCommandId (final (state_of (runLater cb s))) = nextCommandId (incNextCommandId s) \<and>
      nextCommandId (final (state_of (runSync cb d s))) = nextCommandId (incNextCommandId s)) \<and>
   (\<not> onEventLoopThread c s \<longrightarrow>
      nextCommandId (fst (start c w d s)) = nextCommandId (incNextCommandId s) \<and>
      nextCommandId (fst (stop c w d s)) = nextCommandId (incNextCommandId s)) \<and>
   (ids_in_range s \<and> cb \<noteq> Null \<longrightarrow>
      (\<exists>s'. runLater cb s = Inr (s', nextCommandId s) \<and> nextCommandId s \<noteq> 0 \<and>
            id_cmd (last (commands s')) \<noteq> 0 \<and>
            ucast (id_cmd (last (commands s'))) = nextCommandId s))"
proof (intro conjI allI impI)
  show "nextCommandId (SafeLibev_new p t) = 1"
    by (simp add: SafeLibev_new_def)
  show "ids_in_range (final (steps calls (SafeLibev_new p t :: 'a SafeLibev)))" for calls
    using steps_in_range [OF ids_in_range_new] .
  show "nextCommandId (incNextCommandId s) =
     (if nextCommandId s = MAX_COMMAND_ID then 1 else nextCommandId s + 1)"
    by (rule incNextCommandId_next)
  show "unat (nextCommandId (incNextCommandId s)) =
        (if unat (nextCommandId s) = 268435455 then 1 else unat (nextCommandId s) + 1)"
    if "ids_in_range s"
    using that incNextCommandId_in_range(3) [of s] by (simp add: ids_in_range_def)
  show "nextCommandId (incNextCommandId s) \<noteq> 0" if "ids_in_range s"
  proof
    assume "nextCommandId (incNextCommandId s) = 0"
    moreover have "1 \<le> nextCommandId (incNextCommandId s)"
      using that incNextCommandId_in_range(1) [of s] by (simp add: ids_in_range_def)
    ultimately show False by simp
  qed
  show "nextCommandId (final (state_of (runLater cb s))) = nextCommandId (incNextCommandId s)"
    if "cb \<noteq> Null"
    using that
    by (simp add: runLater_def Let_def ev_async_send_def push_back_def incNextCommandId_def)
  show "nextCommandId (final (state_of (runSync cb d s))) = nextCommandId (incNextCommandId s)"
    if "cb \<noteq> Null"
    using that
    by (simp add: runSync_def Let_def ev_async_send_def push_back_def incNextCommandId_def
        set_done_def)
  show "nextCommandId (fst (start c w d s)) = nextCommandId (incNextCommandId s)"
    if "\<not> onEventLoopThread c s"
    using that
    by (simp add: start_def Let_def ev_async_send_def push_back_def incNextCommandId_def
        set_done_def)
  show "nextCommandId (fst (stop c w d s)) = nextCommandId (incNextCommandId s)"
    if "\<not> onEventLoopThread c s"
    using that
    by (simp add: stop_def Let_def ev_async_send_def push_back_def incNextCommandId_def
        set_done_def)
  show "\<exists>s'. runLater cb s = Inr (s', nextCommandId s) \<and> nextCommandId s \<noteq> 0 \<and>
            id_cmd (last (commands s')) \<noteq> 0 \<and>
            ucast (id_cmd (last (commands s'))) = nextCommandId s"
    if "ids_in_range s \<and> cb \<noteq> Null"
  proof -
    from that have n: "1 \<le> nextCommandId s" "nextCommandId s \<le> MAX_COMMAND_ID"
      by (simp_all add: ids_in_range_def)
    then have "nextCommandId s \<noteq> 0" by auto
    moreover note ucast_id_nonzero [OF n] ucast_id_roundtrip [OF n(2)]
    ultimately show ?thesis
      using that
      by (simp add: runLater_def Let_def ev_async_send_def push_back_def
          incNextCommandId_frame new_Command_def)
  qed
qed

theorem nextCommandId_stays_in_range_witness:
  "ids_in_range wrapping_state \<and>
   nextCommandId (incNextCommandId wrapping_state) = 1 \<and>
   nextCommandId (final (state_of (runLater (User 7) wrapping_state))) = 1 \<and>
   (\<exists>s'. runLater (User 7) wrapping_state = Inr (s', 268435455)) \<and>
   ids_in_range (final (steps [Call_runLater (User 7), Call_asyncHandler]
                          (SafeLibev_new 0 0 :: nat SafeLibev)))"
proof -
  have r: "ids_in_range wrapping_state"
    by (simp add: wrapping_state_def ids_in_range_def SafeLibev_new_def MAX_COMMAND_ID_def)
  have m: "nextCommandId wrapping_state = MAX_COMMAND_ID"
    by (simp add: wrapping_state_def)
  have u: "(User 7 :: nat Callback) \<noteq> Null" by simp
  note T = nextCommandId_stays_in_range [of 0 0 wrapping_state "User 7" 0 loop_caller 0]
  from T have "\<forall>calls. ids_in_range (final (steps calls (SafeLibev_new 0 0 :: nat SafeLibev)))"
    by blast
  then have "ids_in_range (final (steps [Call_runLater (User 7), Call_asyncHandler]
                          (SafeLibev_new 0 0 :: nat SafeLibev)))"
    by blast
  moreover have one: "nextCommandId (incNextCommandId wrapping_state) = 1"
    using T [THEN conjunct2, THEN conjunct2, THEN conjunct1] m by simp
  moreover have "nextCommandId (final (state_of (runLater (User 7) wrapping_state))) = 1"
    using T [THEN conjunct2, THEN conjunct2, THEN conjunct2, THEN conjunct2, THEN conjunct1]
      u one by simp
  moreover have "\<exists>s'. runLater (User 7) wrapping_state = Inr (s', 268435455)"
  proof -
    from T r u obtain s' where "runLater (User 7) wrapping_state = Inr (s', nextCommandId wrapping_state)"
      by blast
    then show ?thesis by (simp add: m MAX_COMMAND_ID_def)
  qed
  ultimately show ?thesis using r by blast
qed

subsection \<open>C6: \<^verbatim>\<open>runLater\<close>\<close>

text \<open>
  Claim C6. For every callback (one that is not empty: an empty one fails the assertion,
  see C9) and every state of the queue, \<^verbatim>\<open>runLater\<close> appends a new command with that
  callback and the current next id, not canceled, advances the counter (from the maximum
  back to 1), and returns the id it assigned. It goes through the queue and the wake-up
  signal whoever calls it, and does not call the callback.

  \<^verbatim>\<open>runLater\<close> does not ask which thread calls it, so the model's function has no caller
  to look at. The one call into libev is \<^verbatim>\<open>ev_async_send\<close>; no callback is called
  (\<open>called\<close> and \<open>executed\<close> are as before). The id is stored in 31 bits, which keeps it as
  it is when it is in the range of C5.
\<close>

theorem runLater_submits:
  assumes "cb \<noteq> Null"
  shows "\<exists>s'. runLater cb s = Inr (s', nextCommandId s) \<and>
           commands s' =
             commands s @ [\<lparr>callback = cb, id_cmd = ucast (nextCommandId s), canceled = False\<rparr>] \<and>
           (nextCommandId s \<le> MAX_COMMAND_ID \<longrightarrow>
              ucast (ucast (nextCommandId s) :: 31 word) = nextCommandId s) \<and>
           nextCommandId s' =
             (if nextCommandId s = MAX_COMMAND_ID then 1 else nextCommandId s + 1) \<and>
           ev_calls s' = ev_calls s @ [Ev_async_send] \<and>
           called s' = called s \<and> executed s' = executed s \<and>
           done_flags s' = done_flags s \<and> loopThread s' = loopThread s"
  using assms ucast_id_roundtrip [of "nextCommandId s"]
  by (simp add: runLater_def push_back_def new_Command_def incNextCommandId_def
      ev_async_send_def Let_def)

theorem runLater_submits_witness:
  "\<exists>s'. runLater (User 40) example_queue = Inr (s', 4) \<and>
        commands s' = commands example_queue @ [\<lparr>callback = User 40, id_cmd = 4, canceled = False\<rparr>] \<and>
        nextCommandId s' = 5 \<and> called s' = called example_queue \<and>
        ev_calls s' = ev_calls example_queue @ [Ev_async_send]"
proof -
  have u: "(User 40 :: nat Callback) \<noteq> Null" by simp
  from runLater_submits [OF u, of example_queue] obtain s' where
    "runLater (User 40) example_queue = Inr (s', nextCommandId example_queue)"
    "commands s' = commands example_queue @
       [\<lparr>callback = User 40, id_cmd = ucast (nextCommandId example_queue), canceled = False\<rparr>]"
    "nextCommandId s' =
       (if nextCommandId example_queue = MAX_COMMAND_ID then 1
        else nextCommandId example_queue + 1)"
    "called s' = called example_queue"
    "ev_calls s' = ev_calls example_queue @ [Ev_async_send]"
    by blast
  then show ?thesis
    by (simp add: example_queue_commands(2) MAX_COMMAND_ID_def)
qed

subsection \<open>C7: \<^verbatim>\<open>run\<close>\<close>

text \<open>
  Claim C7. Called on the loop's thread, \<^verbatim>\<open>run(callback)\<close> calls the callback in-line,
  exactly once, before it returns, and leaves the queue and the id counter as they were.
  Called from another thread it behaves like \<^verbatim>\<open>runSync\<close>: it submits and waits until done.

  For a callback that is not empty. On the loop's thread, \<^verbatim>\<open>run\<close> is the call
  \<^verbatim>\<open>callback()\<close> and nothing else, and returns when that call has returned; for a closure
  \<open>User a\<close> of the caller the only change to the state is the one entry \<open>a\<close> appended to
  \<open>called\<close>. From another thread, \<^verbatim>\<open>run\<close> is \<^verbatim>\<open>runSync\<close>, which appends a command that
  calls \<^verbatim>\<open>runAndNotify\<close>, sends the wake-up signal and waits on its \<^verbatim>\<open>done\<close> flag without
  calling the callback; when that command is called, it calls the callback and then sets
  the flag, on which the waiting caller returns.
\<close>

theorem run_inline_on_loop_thread:
  assumes "cb \<noteq> Null"
  shows "(onEventLoopThread c s \<longrightarrow>
            run c cb d s = (case invoke cb s of Inl e \<Rightarrow> Inl e | Inr s' \<Rightarrow> Inr (s', Returned)) \<and>
            commands (final (state_of (run c cb d s))) = commands s \<and>
            nextCommandId (final (state_of (run c cb d s))) = nextCommandId s \<and>
            (\<forall>a. cb = User a \<longrightarrow> run c cb d s = Inr (s\<lparr>called := called s @ [a]\<rparr>, Returned))) \<and>
         (\<not> onEventLoopThread c s \<longrightarrow>
            run c cb d s = runSync cb d s \<and>
            (\<exists>s'. runSync cb d s = Inr (s', Waiting d) \<and>
                  commands s' =
                    commands s @ [\<lparr>callback = BindRunAndNotify cb d,
                                   id_cmd = ucast (nextCommandId s), canceled = False\<rparr>] \<and>
                  nextCommandId s' = nextCommandId (incNextCommandId s) \<and>
                  ev_calls s' = ev_calls s @ [Ev_async_send] \<and>
                  called s' = called s \<and> \<not> done_flags s' d) \<and>
            (\<forall>s1 s2. invoke cb s1 = Inr s2 \<longrightarrow>
                  invoke (BindRunAndNotify cb d) s1 = Inr (set_done d True s2) \<and>
                  wait_done d (set_done d True s2) = Returned))"
proof (intro conjI impI allI)
  assume on: "onEventLoopThread c s"
  show r: "run c cb d s = (case invoke cb s of Inl e \<Rightarrow> Inl e | Inr s' \<Rightarrow> Inr (s', Returned))"
    using assms on by (simp add: run_def)
  have "state_of (run c cb d s) = invoke cb s"
    by (cases "invoke cb s") (simp_all add: r)
  then show "commands (final (state_of (run c cb d s))) = commands s"
    and "nextCommandId (final (state_of (run c cb d s))) = nextCommandId s"
    using invoke_frame [of s cb] by (simp_all add: same_queue_def)
  show "run c cb d s = Inr (s\<lparr>called := called s @ [a]\<rparr>, Returned)" if "cb = User a" for a
    using that on by (simp add: run_def)
next
  assume off: "\<not> onEventLoopThread c s"
  show "run c cb d s = runSync cb d s"
    using assms off by (simp add: run_def)
  show "\<exists>s'. runSync cb d s = Inr (s', Waiting d) \<and>
                  commands s' =
                    commands s @ [\<lparr>callback = BindRunAndNotify cb d,
                                   id_cmd = ucast (nextCommandId s), canceled = False\<rparr>] \<and>
                  nextCommandId s' = nextCommandId (incNextCommandId s) \<and>
                  ev_calls s' = ev_calls s @ [Ev_async_send] \<and>
                  called s' = called s \<and> \<not> done_flags s' d"
    using assms
    by (simp add: runSync_def Let_def set_done_def push_back_def new_Command_def
        incNextCommandId_def ev_async_send_def wait_done_def)
  show "invoke (BindRunAndNotify cb d) s1 = Inr (set_done d True s2)"
    if "invoke cb s1 = Inr s2" for s1 s2
    using that by simp
  show "wait_done d (set_done d True s2) = Returned" for s2 :: "'a SafeLibev"
    by (simp add: wait_done_def set_done_def)
qed

theorem run_inline_on_loop_thread_witness:
  "onEventLoopThread loop_caller example_queue \<and>
   run loop_caller (User 5) 0 example_queue =
     Inr (example_queue\<lparr>called := called example_queue @ [5]\<rparr>, Returned) \<and>
   commands (final (state_of (run loop_caller (User 5) 0 example_queue))) = commands example_queue \<and>
   \<not> onEventLoopThread other_caller example_queue \<and>
   run other_caller (User 5) 0 example_queue = runSync (User 5) 0 example_queue \<and>
   (\<exists>s'. runSync (User 5) 0 example_queue = Inr (s', Waiting 0))"
proof -
  have u: "(User 5 :: nat Callback) \<noteq> Null" by simp
  have on: "onEventLoopThread loop_caller example_queue"
    by (simp add: onEventLoopThread_def loop_caller_def example_queue_def runLater_def
        push_back_def incNextCommandId_def ev_async_send_def cancelCommand_def
        SafeLibev_new_def Let_def split: prod.splits)
  have off: "\<not> onEventLoopThread other_caller example_queue"
    by (simp add: onEventLoopThread_def other_caller_def example_queue_def runLater_def
        push_back_def incNextCommandId_def ev_async_send_def cancelCommand_def
        SafeLibev_new_def Let_def split: prod.splits)
  from run_inline_on_loop_thread [OF u, of loop_caller example_queue 0] on
  have "run loop_caller (User 5) 0 example_queue =
          Inr (example_queue\<lparr>called := called example_queue @ [5]\<rparr>, Returned)"
    and "commands (final (state_of (run loop_caller (User 5) 0 example_queue))) =
          commands example_queue"
    by blast+
  moreover from run_inline_on_loop_thread [OF u, of other_caller example_queue 0] off
  have "run other_caller (User 5) 0 example_queue = runSync (User 5) 0 example_queue"
    and "\<exists>s'. runSync (User 5) 0 example_queue = Inr (s', Waiting 0)"
    by blast+
  ultimately show ?thesis using on off by blast
qed

subsection \<open>C8: \<^verbatim>\<open>runAfterTS\<close>\<close>

text \<open>
  Claim C8. On the loop's thread \<^verbatim>\<open>runAfterTS(timeout, callback)\<close> calls
  \<^verbatim>\<open>runAfter(timeout, callback)\<close> directly. From another thread it submits, through
  \<^verbatim>\<open>runLater\<close>, a command that calls \<^verbatim>\<open>runAfter(timeout, callback)\<close> when it is drained
  on the loop's thread: what is deferred is the scheduling, not the callback.

  The command submitted holds \<open>BindRunAfter timeout cb\<close>, whose call is \<^verbatim>\<open>runAfter\<close>;
  and \<^verbatim>\<open>runAfter\<close> hands the callback to \<^verbatim>\<open>ev_once\<close> without calling it.
\<close>

theorem runAfterTS_defers_only_the_scheduling:
  "(onEventLoopThread c s \<longrightarrow> runAfterTS c timeout cb s = runAfter timeout cb s) \<and>
   (\<not> onEventLoopThread c s \<and> cb \<noteq> Null \<longrightarrow>
      runAfterTS c timeout cb s = state_of (runLater (BindRunAfter timeout cb) s) \<and>
      (\<exists>s'. runAfterTS c timeout cb s = Inr s' \<and>
            commands s' =
              commands s @ [\<lparr>callback = BindRunAfter timeout cb,
                             id_cmd = ucast (nextCommandId s), canceled = False\<rparr>] \<and>
            ev_calls s' = ev_calls s @ [Ev_async_send] \<and>
            called s' = called s)) \<and>
   (\<forall>s1. invoke (BindRunAfter timeout cb) s1 = runAfter timeout cb s1) \<and>
   (cb \<noteq> Null \<longrightarrow>
      (\<forall>s1. runAfter timeout cb s1 = Inr (s1\<lparr>ev_calls := ev_calls s1 @ [Ev_once timeout cb]\<rparr>)))"
  by (simp add: runAfterTS_def runAfter_def runLater_def Let_def push_back_def new_Command_def
      incNextCommandId_def ev_async_send_def)

theorem runAfterTS_defers_only_the_scheduling_witness:
  "runAfterTS loop_caller 50 (User 5) example_queue =
     Inr (example_queue\<lparr>ev_calls := ev_calls example_queue @ [Ev_once 50 (User 5)]\<rparr>) \<and>
   (\<exists>s'. runAfterTS other_caller 50 (User 5) example_queue = Inr s' \<and>
         commands s' =
           commands example_queue @ [\<lparr>callback = BindRunAfter 50 (User 5),
              id_cmd = ucast (nextCommandId example_queue), canceled = False\<rparr>] \<and>
         called s' = called example_queue)"
proof -
  have u: "(User 5 :: nat Callback) \<noteq> Null" by simp
  have on: "onEventLoopThread loop_caller example_queue"
    by (simp add: onEventLoopThread_def loop_caller_def example_queue_def runLater_def
        push_back_def incNextCommandId_def ev_async_send_def cancelCommand_def
        SafeLibev_new_def Let_def split: prod.splits)
  have off: "\<not> onEventLoopThread other_caller example_queue"
    by (simp add: onEventLoopThread_def other_caller_def example_queue_def runLater_def
        push_back_def incNextCommandId_def ev_async_send_def cancelCommand_def
        SafeLibev_new_def Let_def split: prod.splits)
  note T = runAfterTS_defers_only_the_scheduling [of _ example_queue 50 "User 5"]
  have "runAfterTS loop_caller 50 (User 5) example_queue = runAfter 50 (User 5) example_queue"
    using T [of loop_caller] on by blast
  moreover have "runAfter 50 (User 5) example_queue =
      Inr (example_queue\<lparr>ev_calls := ev_calls example_queue @ [Ev_once 50 (User 5)]\<rparr>)"
    using T [of loop_caller] u by blast
  moreover have "\<exists>s'. runAfterTS other_caller 50 (User 5) example_queue = Inr s' \<and>
         commands s' =
           commands example_queue @ [\<lparr>callback = BindRunAfter 50 (User 5),
              id_cmd = ucast (nextCommandId example_queue), canceled = False\<rparr>] \<and>
         called s' = called example_queue"
    using T [of other_caller] off u by blast
  ultimately show ?thesis by simp
qed

subsection \<open>C9: an empty callback\<close>

text \<open>
  Claim C9. Each of \<^verbatim>\<open>run\<close>, \<^verbatim>\<open>runSync\<close>, \<^verbatim>\<open>runAfter\<close>, \<^verbatim>\<open>runAfterTS\<close> and \<^verbatim>\<open>runLater\<close>,
  given an empty callback, fails its assertion at once, whatever the state and the calling
  thread: it does not ignore the call, and it has changed nothing when it fails.
\<close>

theorem null_callback_fails_assertion:
  "run c Null d s = Inl (AssertionFailed, s) \<and>
   runSync Null d s = Inl (AssertionFailed, s) \<and>
   runAfter timeout Null s = Inl (AssertionFailed, s) \<and>
   runAfterTS c timeout Null s = Inl (AssertionFailed, s) \<and>
   runLater Null s = Inl (AssertionFailed, s)"
  by (simp add: run_def runSync_def runAfter_def runAfterTS_def runLater_def)

theorem null_callback_fails_assertion_witness:
  "run other_caller Null 0 example_queue = Inl (AssertionFailed, example_queue) \<and>
   runSync Null 0 example_queue = Inl (AssertionFailed, example_queue) \<and>
   runAfter 50 Null example_queue = Inl (AssertionFailed, example_queue) \<and>
   runAfterTS other_caller 50 Null example_queue = Inl (AssertionFailed, example_queue) \<and>
   runLater Null example_queue = Inl (AssertionFailed, example_queue)"
  using null_callback_fails_assertion [of other_caller 0 example_queue 50] .

subsection \<open>C10: canceling twice\<close>

text \<open>
  Claim C10. For a command that is in the queue (its id is not 0, by C5), two calls of
  \<^verbatim>\<open>cancelCommand\<close> with its id, with no drain in between, both return true. The first
  sets \<open>canceled\<close> in the first command with that id; the second changes nothing at all,
  so that command stays canceled and no other command is touched.
\<close>

theorem cancelCommand_twice:
  assumes "c \<in> set (commands s)" and "ucast (id_cmd c) = i" and "i \<noteq> 0"
  shows "\<exists>k s1. first_with_id i (commands s) k \<and>
           cancelCommand i s = (True, s1) \<and>
           commands s1 = (commands s)[k := (commands s ! k)\<lparr>canceled := True\<rparr>] \<and>
           cancelCommand i s1 = (True, s1) \<and>
           canceled (commands s1 ! k)"
proof -
  have "list_ex (\<lambda>c. ucast (id_cmd c) = i) (commands s)"
    using assms(1,2) by (auto simp: list_ex_iff)
  then obtain k where k: "first_with_id i (commands s) k"
    using list_ex_first_with_id by blast
  let ?cs = "(commands s)[k := (commands s ! k)\<lparr>canceled := True\<rparr>]"
  let ?s1 = "s\<lparr>commands := ?cs\<rparr>"
  have first: "cancelCommand i s = (True, ?s1)"
    using assms(3) cancelCommand_loop_first [OF k] by (simp add: cancelCommand_def)
  have k': "first_with_id i ?cs k"
    using k by (auto simp: first_with_id_def)
  have same: "?cs[k := (?cs ! k)\<lparr>canceled := True\<rparr>] = ?cs"
    using k by (simp add: first_with_id_def)
  have second: "cancelCommand i ?s1 = (True, ?s1)"
    using assms(3) cancelCommand_loop_first [OF k'] same by (simp add: cancelCommand_def)
  have "canceled (commands ?s1 ! k)"
    using k by (simp add: first_with_id_def)
  with k first second show ?thesis by auto
qed

theorem cancelCommand_twice_witness:
  "\<exists>k s1. first_with_id 3 (commands example_queue) k \<and>
     cancelCommand 3 example_queue = (True, s1) \<and>
     commands s1 = (commands example_queue)[k := (commands example_queue ! k)\<lparr>canceled := True\<rparr>] \<and>
     cancelCommand 3 s1 = (True, s1) \<and>
     canceled (commands s1 ! k)"
proof -
  have "\<lparr>callback = User 30, id_cmd = 3, canceled = False\<rparr> \<in> set (commands example_queue)"
    by (simp add: example_queue_commands)
  from cancelCommand_twice [OF this, of 3] show ?thesis by simp
qed

end
